theory Spec2Isabelle
  imports Complex_Main "HOL-Library.AList" "HOL-Library.Product_Lexorder"
begin

section \<open>Python strings\<close>

text \<open>
  A Python \<open>str\<close> is a sequence of Unicode code points; \<open>len\<close>, indexing and slicing
  count code points. A code point is modelled by its number, so a string is a list of
  naturals. \<open>lit\<close> turns an ASCII literal into such a list.
\<close>

type_synonym pystr = "nat list"

definition lit :: "string \<Rightarrow> pystr" where
  "lit cs = map of_char cs"

definition backslash :: nat where "backslash = 92"
definition lbrace :: nat where "lbrace = 123"
definition rbrace :: nat where "rbrace = 125"
definition rparen :: nat where "rparen = 41"
definition colon :: nat where "colon = 58"
definition space :: nat where "space = 32"

text \<open>
  \<open>s[a:b]\<close> for \<open>0 \<le> a\<close>, \<open>0 \<le> b\<close>: Python clamps both ends to the string, and an
  empty range gives the empty string; \<open>take\<close> and \<open>drop\<close> clamp in the same way.
\<close>

definition slice :: "pystr \<Rightarrow> nat \<Rightarrow> nat \<Rightarrow> pystr" where
  "slice s a b = take (b - a) (drop a s)"

datatype py_error = IndexError | OSError

text \<open>\<open>s[i]\<close> for \<open>0 \<le> i\<close>: raises IndexError when \<open>i\<close> is not below \<open>len(s)\<close>.\<close>

definition char_at :: "pystr \<Rightarrow> nat \<Rightarrow> py_error + nat" where
  "char_at s i = (if i < length s then Inr (s ! i) else Inl IndexError)"

text \<open>
  \<open>str.isspace\<close> on one code point, as \<open>str.strip()\<close> uses it: the code points that
  CPython's Unicode database marks as whitespace.
\<close>

definition isspace :: "nat \<Rightarrow> bool" where
  "isspace c \<longleftrightarrow>
     (9 \<le> c \<and> c \<le> 13) \<or> (28 \<le> c \<and> c \<le> 32) \<or> c = 133 \<or> c = 160 \<or> c = 5760 \<or>
     (8192 \<le> c \<and> c \<le> 8202) \<or> c = 8232 \<or> c = 8233 \<or> c = 8239 \<or> c = 8287 \<or> c = 12288"

definition strip :: "pystr \<Rightarrow> pystr" where
  "strip s = rev (dropWhile isspace (rev (dropWhile isspace s)))"

section \<open>Regular expressions of the script\<close>

text \<open>
  The two patterns of \<open>find_function_dupes.py\<close> use literals, one negated character
  class, greedy \<open>*\<close>, \<open>+\<close> and \<open>?\<close>, and concatenation. \<open>ends r s p\<close> lists the
  positions at which a match of \<open>r\<close> starting at \<open>p\<close> can end, in the order in which
  Python's backtracking matcher tries them (greedy repetitions try the longest run first).
\<close>

datatype atom = Chr nat | NotChr nat

datatype re =
    One atom
  | Star atom
  | Plus atom
  | Opt re
  | Cat re re

fun accepts :: "atom \<Rightarrow> nat \<Rightarrow> bool" where
  "accepts (Chr c) x \<longleftrightarrow> x = c"
| "accepts (NotChr c) x \<longleftrightarrow> x \<noteq> c"

definition run :: "atom \<Rightarrow> pystr \<Rightarrow> nat \<Rightarrow> nat" where
  "run a s p = length (takeWhile (accepts a) (drop p s))"

primrec ends :: "re \<Rightarrow> pystr \<Rightarrow> nat \<Rightarrow> nat list" where
  "ends (One a) s p = (if p < length s \<and> accepts a (s ! p) then [p + 1] else [])"
| "ends (Star a) s p = rev [p ..< p + run a s p + 1]"
| "ends (Plus a) s p = rev [p + 1 ..< p + run a s p + 1]"
| "ends (Opt r) s p = ends r s p @ [p]"
| "ends (Cat r1 r2) s p = concat (map (ends r2 s) (ends r1 s p))"

fun chars :: "pystr \<Rightarrow> re \<Rightarrow> re" where
  "chars [] r = r"
| "chars (c # cs) r = Cat (One (Chr c)) (chars cs r)"

text \<open>
  \<open>re.search\<close> from position \<open>pos\<close>: the leftmost start at which the pattern matches,
  with the end that the matcher finds first.
\<close>

function search :: "re \<Rightarrow> pystr \<Rightarrow> nat \<Rightarrow> (nat \<times> nat) option" where
  "search r s pos =
     (if length s < pos then None
      else (case ends r s pos of
              e # _ \<Rightarrow> Some (pos, e)
            | [] \<Rightarrow> search r s (pos + 1)))"
  by pat_completeness auto
termination
  by (relation "measure (\<lambda>(r, s, pos). length s + 1 - pos)") auto

text \<open>
  \<open>re.sub(pattern, repl, s)\<close>: the text between matches is copied, each match is replaced.
  After a match of width zero the scan copies one character and moves on; the pattern
  this script substitutes never matches the empty string.
\<close>

function sub_from :: "re \<Rightarrow> pystr \<Rightarrow> pystr \<Rightarrow> nat \<Rightarrow> pystr" where
  "sub_from r repl s pos =
     (case search r s pos of
        None \<Rightarrow> drop pos s
      | Some (st, e) \<Rightarrow>
          slice s pos st @ repl @
          (if st < e then sub_from r repl s e
           else slice s st (st + 1) @ (if st < length s then sub_from r repl s (st + 1) else [])))"
  by pat_completeness auto

lemma search_bounds: "search r s pos = Some (st, e) \<Longrightarrow> pos \<le> st \<and> st \<le> length s"
proof (induction r s pos rule: search.induct)
  case (1 r s pos)
  show ?case
  proof (cases "ends r s pos")
    case Nil
    with "1.prems" have "\<not> length s < pos" and "search r s (pos + 1) = Some (st, e)"
      by (auto split: if_splits)
    with "1.IH" Nil show ?thesis by fastforce
  next
    case (Cons x xs)
    with "1.prems" show ?thesis by (auto split: if_splits)
  qed
qed

termination sub_from
proof (relation "measure (\<lambda>(r, repl, s, pos). length s + 1 - pos)")
  show "wf (measure (\<lambda>(r, repl, s, pos). length s + 1 - pos))" by simp
next
  fix r :: re and repl s :: pystr and pos :: nat and x2 x y
  assume "search r s pos = Some x2" "(x, y) = x2" "x < y"
  then have "pos \<le> x \<and> x \<le> length s" using search_bounds [of r s pos x y] by simp
  with \<open>x < y\<close> show "((r, repl, s, y), r, repl, s, pos) \<in> measure (\<lambda>(r, repl, s, pos). length s + 1 - pos)"
    by auto
next
  fix r :: re and repl s :: pystr and pos :: nat and x2 x y
  assume "search r s pos = Some x2" "(x, y) = x2" "\<not> x < y" "x < length s"
  then have "pos \<le> x \<and> x \<le> length s" using search_bounds [of r s pos x y] by simp
  with \<open>x < length s\<close> show "((r, repl, s, x + 1), r, repl, s, pos) \<in> measure (\<lambda>(r, repl, s, pos). length s + 1 - pos)"
    by auto
qed

definition re_sub :: "re \<Rightarrow> pystr \<Rightarrow> pystr \<Rightarrow> pystr" where
  "re_sub r repl s = sub_from r repl s 0"

section \<open>The patterns as the script writes them\<close>

text \<open>
  The script writes its patterns as raw string literals with doubled backslashes:
  \<^verbatim>\<open>FUNC_RE = re.compile(r"(?:pub\\s+)?fn\\s+(\\w+)\\s*\\([^)]*\\)\\s*\\{")\<close> and
  \<^verbatim>\<open>re.sub(r"\\s+", " ", body)\<close>.
  In a raw literal each backslash is a character of the pattern, and \<open>re\<close> reads two of
  them as one escaped, literal backslash. The letters \<open>s\<close> and \<open>w\<close> that follow are
  therefore ordinary letters, the parenthesis after a doubled backslash opens a group, and
  the final brace, which starts no repetition count, is a literal brace.

  \<open>FUNC_RE\<close> is thus: optionally \<open>pub\<close>, a backslash and one or more \<open>s\<close>; then
  \<open>fn\<close>, a backslash and one or more \<open>s\<close>; then group 1, a backslash and one or more
  \<open>w\<close>; then a backslash and any number of \<open>s\<close>; a backslash; group 2, any run of
  characters other than a closing parenthesis followed by a backslash; a backslash and
  any number of \<open>s\<close>; a backslash and an opening brace.
\<close>

definition WS_RE :: re where
  "WS_RE = Cat (One (Chr backslash)) (Plus (Chr (of_char CHR ''s'')))"

definition FUNC_RE_head :: re where
  "FUNC_RE_head =
     Cat (Opt (chars (lit ''pub'') (Cat (One (Chr backslash)) (Plus (Chr (of_char CHR ''s''))))))
         (chars (lit ''fn'') (Cat (One (Chr backslash)) (Plus (Chr (of_char CHR ''s'')))))"

definition FUNC_RE_group1 :: re where
  "FUNC_RE_group1 = Cat (One (Chr backslash)) (Plus (Chr (of_char CHR ''w'')))"

definition FUNC_RE_tail :: re where
  "FUNC_RE_tail =
     Cat (One (Chr backslash)) (Cat (Star (Chr (of_char CHR ''s'')))
     (Cat (One (Chr backslash))
     (Cat (Cat (Star (NotChr rparen)) (One (Chr backslash)))
     (Cat (One (Chr backslash)) (Cat (Star (Chr (of_char CHR ''s'')))
     (Cat (One (Chr backslash)) (One (Chr lbrace))))))))"

definition FUNC_RE :: re where
  "FUNC_RE = Cat FUNC_RE_head (Cat FUNC_RE_group1 FUNC_RE_tail)"

text \<open>
  A match object of \<open>FUNC_RE\<close>: \<open>m.start()\<close>, \<open>m.end()\<close> and \<open>m.group(1)\<close>.
  \<open>FUNC_RE_match s pos\<close> is the match starting at \<open>pos\<close> that backtracking finds first;
  group 1 spans what the middle part of the pattern consumed.
\<close>

record rmatch =
  m_start :: nat
  m_end :: nat
  m_group1 :: pystr

definition FUNC_RE_candidates :: "pystr \<Rightarrow> nat \<Rightarrow> (nat \<times> nat \<times> nat) list" where
  "FUNC_RE_candidates s pos =
     concat (map (\<lambda>p1. concat (map (\<lambda>p2. map (\<lambda>p3. (p1, p2, p3)) (ends FUNC_RE_tail s p2))
                                     (ends FUNC_RE_group1 s p1)))
                 (ends FUNC_RE_head s pos))"

definition FUNC_RE_match :: "pystr \<Rightarrow> nat \<Rightarrow> rmatch option" where
  "FUNC_RE_match s pos =
     (case FUNC_RE_candidates s pos of
        [] \<Rightarrow> None
      | (p1, p2, p3) # _ \<Rightarrow> Some \<lparr>m_start = pos, m_end = p3, m_group1 = slice s p1 p2\<rparr>)"

text \<open>
  \<open>FUNC_RE.finditer(source)\<close>: the matches from left to right, each search starting
  where the previous match ended (one further after a match of width zero).
\<close>

function finditer :: "pystr \<Rightarrow> nat \<Rightarrow> rmatch list" where
  "finditer s pos =
     (if length s < pos then []
      else (case FUNC_RE_match s pos of
              None \<Rightarrow> finditer s (pos + 1)
            | Some m \<Rightarrow> m # finditer s (if pos < m_end m then m_end m else pos + 1)))"
  by pat_completeness auto
termination
  by (relation "measure (\<lambda>(s, pos). length s + 1 - pos)") auto

section \<open>Function Extractor and Normalizer\<close>

text \<open>
  The brace-depth loop of \<open>extract_functions\<close>:
  \<^verbatim>\<open>while i < len(source) and depth: ... i += 1\<close>.
  It returns the final \<open>i\<close>. Reading \<open>source[i]\<close> goes through \<open>char_at\<close>, so an index
  out of range would show as \<open>Inl IndexError\<close>.
\<close>

definition brace_step :: "nat \<Rightarrow> int \<Rightarrow> int" where
  "brace_step c depth =
     (if c = lbrace then depth + 1 else if c = rbrace then depth - 1 else depth)"

function scan :: "pystr \<Rightarrow> nat \<Rightarrow> int \<Rightarrow> py_error + nat" where
  "scan source i depth =
     (if i < length source \<and> depth \<noteq> 0 then
        (case char_at source i of
           Inl e \<Rightarrow> Inl e
         | Inr c \<Rightarrow> scan source (i + 1) (brace_step c depth))
      else Inr i)"
  by pat_completeness auto
termination
  by (relation "measure (\<lambda>(source, i, depth). length source - i)") auto

text \<open>
  The value of the counter \<open>depth\<close> once the loop, started behind the opening brace at
  \<open>e\<close> with depth 1, has consumed \<open>source[e:k]\<close>.
\<close>

definition depth_after :: "pystr \<Rightarrow> nat \<Rightarrow> nat \<Rightarrow> int" where
  "depth_after source e k = fold brace_step (slice source e k) 1"

text \<open>The Normalizer: \<^verbatim>\<open>re.sub(r"\\s+", " ", body).strip()\<close>.\<close>

definition normalize_body :: "pystr \<Rightarrow> pystr" where
  "normalize_body body = strip (re_sub WS_RE [space] body)"

text \<open>
  The loop body of \<open>extract_functions\<close> for one match, and the loop over all matches.
  \<open>function_body\<close> is the local \<open>body = source[start:i]\<close>; the pair appended to the result
  holds its normalized form \<open>body_clean\<close>.
\<close>

definition function_body :: "pystr \<Rightarrow> rmatch \<Rightarrow> py_error + pystr" where
  "function_body source m =
     (case scan source (m_end m) 1 of
        Inl e \<Rightarrow> Inl e
      | Inr i \<Rightarrow> Inr (slice source (m_start m) i))"

fun extract_loop :: "pystr \<Rightarrow> rmatch list \<Rightarrow> (pystr \<times> pystr) list \<Rightarrow> py_error + (pystr \<times> pystr) list" where
  "extract_loop source [] functions = Inr functions"
| "extract_loop source (m # ms) functions =
     (case function_body source m of
        Inl e \<Rightarrow> Inl e
      | Inr body \<Rightarrow> extract_loop source ms (functions @ [(m_group1 m, normalize_body body)]))"

definition extract_functions :: "pystr \<Rightarrow> py_error + (pystr \<times> pystr) list" where
  "extract_functions source = extract_loop source (finditer source 0) []"

text \<open>The least number of characters a match of a pattern consumes.\<close>

fun min_len :: "re \<Rightarrow> nat" where
  "min_len (One a) = 1"
| "min_len (Star a) = 0"
| "min_len (Plus a) = 1"
| "min_len (Opt r) = 0"
| "min_len (Cat r1 r2) = min_len r1 + min_len r2"

section \<open>Example inputs\<close>

text \<open>
  A declaration that \<open>FUNC_RE\<close> as written matches, followed by a body with balanced
  braces and some trailing text; and the same declaration with the last closing brace
  missing.
\<close>

definition example_decl :: pystr where
  "example_decl =
     lit ''fn'' @ [backslash] @ lit ''s'' @ [backslash] @ lit ''w'' @ [backslash, backslash] @
     lit ''x'' @ [backslash, backslash, backslash] @ lit ''{''"

definition example_balanced :: pystr where
  "example_balanced = example_decl @ lit '' a { b } c } tail''"


definition example_match :: rmatch where
  "example_match = \<lparr>m_start = 0, m_end = 13, m_group1 = [backslash, of_char CHR ''w'']\<rparr>"

text \<open>
  A string holds a match of the Normalizer's pattern as written exactly when a backslash
  is followed by the letter \<open>s\<close> somewhere in it.
\<close>

definition has_ws :: "pystr \<Rightarrow> bool" where
  "has_ws s \<longleftrightarrow> (\<exists>p. Suc p < length s \<and> s ! p = backslash \<and> s ! Suc p = of_char CHR ''s'')"

text \<open>
  Two declarations whose bodies differ only in the number of spaces between \<open>a\<close> and
  \<open>b\<close>.
\<close>

definition example_two_spaces :: pystr where
  "example_two_spaces = example_decl @ lit '' a  b }''"

definition example_one_space :: pystr where
  "example_one_space = example_decl @ lit '' a b }''"

text \<open>\<open>example_decl\<close> with the backslash and \<open>s\<close> behind \<open>fn\<close> replaced by a space.\<close>

definition example_decl_clean :: pystr where
  "example_decl_clean =
     lit ''fn '' @ [backslash] @ lit ''w'' @ [backslash, backslash] @
     lit ''x'' @ [backslash, backslash, backslash] @ lit ''{''"

section \<open>Token mapping and Cluster Aggregator\<close>

text \<open>
  A FunctionKey is the pair \<open>(str(zig_file), fn_name)\<close>. A Python \<open>dict\<close> keeps its keys
  in insertion order, and assigning to a key that is present keeps the key's place; it is
  modelled as an association list with distinct keys, \<open>AList.update\<close> being the
  assignment \<open>d[k] = v\<close>.
\<close>

type_synonym fkey = "pystr \<times> pystr"

text \<open>
  The fallback \<open>_hash\<close> of the script returns its argument. The fingerprint type \<open>'h\<close>,
  the function \<open>hash\<close> and the comparator \<open>similar\<close> are parameters of what follows, so
  that both the \<open>ssdeep\<close> pair and the fallback pair are covered.
\<close>

definition hash_fallback :: "pystr \<Rightarrow> pystr" where
  "hash_fallback s = s"

text \<open>
  The loops of \<open>main\<close> that fill \<open>tokens\<close>. The files that \<open>iter_zig_files\<close> yields are
  given as pairs of \<open>str(zig_file)\<close> and the result of \<open>read_text\<close>, which is \<open>None\<close>
  when decoding raises \<open>UnicodeDecodeError\<close>: such a file is skipped.
\<close>

fun add_functions :: "(pystr \<Rightarrow> 'h) \<Rightarrow> pystr \<Rightarrow> (pystr \<times> pystr) list \<Rightarrow> (fkey \<times> 'h) list \<Rightarrow> (fkey \<times> 'h) list" where
  "add_functions hash file [] tokens = tokens"
| "add_functions hash file ((fn_name, body) # rest) tokens =
     add_functions hash file rest (AList.update (file, fn_name) (hash body) tokens)"

fun scan_files :: "(pystr \<Rightarrow> 'h) \<Rightarrow> (pystr \<times> pystr option) list \<Rightarrow> (fkey \<times> 'h) list \<Rightarrow> py_error + (fkey \<times> 'h) list" where
  "scan_files hash [] tokens = Inr tokens"
| "scan_files hash ((file, None) # rest) tokens = scan_files hash rest tokens"
| "scan_files hash ((file, Some code) # rest) tokens =
     (case extract_functions code of
        Inl e \<Rightarrow> Inl e
      | Inr fs \<Rightarrow> scan_files hash rest (add_functions hash file fs tokens))"

text \<open>The key of a cluster: \<^verbatim>\<open>f"{file1}::{name1}"\<close>.\<close>

definition key_string :: "fkey \<Rightarrow> pystr" where
  "key_string k = fst k @ lit ''::'' @ snd k"

text \<open>\<^verbatim>\<open>clusters.setdefault(h, []).append(x)\<close> on the dict \<open>clusters\<close>.\<close>

definition setdefault_append :: "pystr \<Rightarrow> fkey \<Rightarrow> (pystr \<times> fkey list) list \<Rightarrow> (pystr \<times> fkey list) list" where
  "setdefault_append h x clusters =
     (case map_of clusters h of
        None \<Rightarrow> clusters @ [(h, [x])]
      | Some members \<Rightarrow> AList.update h (members @ [x]) clusters)"

text \<open>
  The all-pairs loops of \<open>main\<close> over \<open>items = list(tokens.items())\<close>: \<open>i\<close> runs over
  \<open>range(total)\<close> and \<open>j\<close> over \<open>range(i + 1, total)\<close>, so both index inside \<open>items\<close>.
\<close>

definition compare_pair :: "('h \<Rightarrow> 'h \<Rightarrow> int) \<Rightarrow> (fkey \<times> 'h) list \<Rightarrow> nat \<Rightarrow> nat \<Rightarrow> (pystr \<times> fkey list) list \<Rightarrow> (pystr \<times> fkey list) list" where
  "compare_pair similar items i j clusters =
     (let score = similar (snd (items ! i)) (snd (items ! j))
      in if 90 < score then setdefault_append (key_string (fst (items ! i))) (fst (items ! j)) clusters
         else clusters)"

definition inner_loop :: "('h \<Rightarrow> 'h \<Rightarrow> int) \<Rightarrow> (fkey \<times> 'h) list \<Rightarrow> nat \<Rightarrow> (pystr \<times> fkey list) list \<Rightarrow> (pystr \<times> fkey list) list" where
  "inner_loop similar items i clusters =
     fold (compare_pair similar items i) [i + 1 ..< length items] clusters"

definition cluster_pairs :: "('h \<Rightarrow> 'h \<Rightarrow> int) \<Rightarrow> (fkey \<times> 'h) list \<Rightarrow> (pystr \<times> fkey list) list" where
  "cluster_pairs similar items = fold (inner_loop similar items) [0 ..< length items] []"

text \<open>The list that the report holds under a key string, empty when the key is absent.\<close>

definition cluster_list :: "(pystr \<times> fkey list) list \<Rightarrow> pystr \<Rightarrow> fkey list" where
  "cluster_list clusters h = (case map_of clusters h of None \<Rightarrow> [] | Some members \<Rightarrow> members)"

text \<open>
  The members that the scan adds for the head at index \<open>i\<close>: the keys behind it whose
  score against it exceeds 90, in scan order.
\<close>

definition members_of :: "('h \<Rightarrow> 'h \<Rightarrow> int) \<Rightarrow> (fkey \<times> 'h) list \<Rightarrow> nat \<Rightarrow> fkey list" where
  "members_of similar items i =
     map (\<lambda>j. fst (items ! j))
       (filter (\<lambda>j. 90 < similar (snd (items ! i)) (snd (items ! j))) [i + 1 ..< length items])"

text \<open>The shape of the cluster dict: distinct keys, and no key with an empty list.\<close>

definition nonempty_lists :: "(pystr \<times> fkey list) list \<Rightarrow> bool" where
  "nonempty_lists cl \<longleftrightarrow> distinct (map fst cl) \<and> [] \<notin> snd ` set cl"

text \<open>
  The shape of \<open>tokens\<close>: the keys are distinct, as in every dict, and no function name
  holds a colon.
\<close>

definition good_tokens :: "(fkey \<times> 'h) list \<Rightarrow> bool" where
  "good_tokens tokens \<longleftrightarrow> distinct (map fst tokens) \<and> (\<forall>k \<in> set (map fst tokens). colon \<notin> set (snd k))"

text \<open>
  Three entries of a token mapping: two functions with the same fingerprint and a third
  with another one; and a comparator that scores equal fingerprints 100 and all others 0.
\<close>

definition example_items :: "(fkey \<times> pystr) list" where
  "example_items =
     [((lit ''x.zig'', [backslash, of_char CHR ''w'']), lit ''A''),
      ((lit ''y.zig'', [backslash, of_char CHR ''w'']), lit ''A''),
      ((lit ''z.zig'', [backslash, of_char CHR ''w'']), lit ''B'')]"

definition example_similar :: "pystr \<Rightarrow> pystr \<Rightarrow> int" where
  "example_similar a b = (if a = b then 100 else 0)"

text \<open>
  Three files as \<open>iter_zig_files\<close> yields them: two hold the same declaration, one cannot
  be decoded. \<open>example_tokens\<close> is the token mapping that \<open>main\<close> builds from them with
  the fallback \<open>_hash\<close>.
\<close>

definition example_files :: "(pystr \<times> pystr option) list" where
  "example_files =
     [(lit ''x.zig'', Some example_two_spaces), (lit ''bad.zig'', None),
      (lit ''y.zig'', Some example_two_spaces)]"

definition example_tokens :: "(fkey \<times> pystr) list" where
  "example_tokens =
     [((lit ''x.zig'', [backslash, of_char CHR ''w'']), example_decl_clean @ lit '' a  b }''),
      ((lit ''y.zig'', [backslash, of_char CHR ''w'']), example_decl_clean @ lit '' a  b }'')]"

section \<open>The program \<open>main\<close>\<close>

text \<open>
  What \<open>main\<close> does to the world is a list of events, in order: a line on stderr, the
  walk of the tree under the root (\<open>root.rglob\<close>), the reading of a file, the writing of
  the report, the summary line on stdout. The report is the cluster dict itself; its JSON
  text is not modelled.

  What \<open>main\<close> finds in the world is a record of functions:
  \<^item> \<open>path_string x\<close> is \<open>str(pathlib.Path(x))\<close>, the normalized form of the argument
    (\<open>./nowhere\<close> becomes \<open>nowhere\<close>); every other function takes a path in this form;
  \<^item> \<open>path_exists\<close> is \<open>Path.exists()\<close>, which answers or raises \<open>OSError\<close>;
  \<^item> \<open>rglob_zig\<close> is what \<open>root.rglob("*.zig")\<close> yields, each path with its string and
    its parts, and the exception that ends the walk, if one does;
  \<^item> \<open>read_text\<close> is \<open>Path.read_text(encoding="utf-8")\<close>: the text, a
    \<open>UnicodeDecodeError\<close>, or an \<open>OSError\<close> (a directory named \<open>*.zig\<close>, a file that
    cannot be opened);
  \<^item> \<open>write_text_ok\<close> says whether writing the report succeeds; otherwise it raises
    \<open>OSError\<close>.
\<close>

datatype event =
    Print_stderr pystr
  | Rglob pystr
  | Read_text pystr
  | Write_text pystr "(pystr \<times> fkey list) list"
  | Print_summary pystr nat

datatype outcome = Returned | SystemExit int | Raised py_error

datatype read_result = Text pystr | Decode_error | Os_error

record zig_path =
  path_str :: pystr
  path_parts :: "pystr list"

record filesystem =
  path_string :: "pystr \<Rightarrow> pystr"
  path_exists :: "pystr \<Rightarrow> py_error + bool"
  rglob_zig :: "pystr \<Rightarrow> zig_path list \<times> py_error option"
  read_text :: "pystr \<Rightarrow> read_result"
  write_text_ok :: "pystr \<Rightarrow> bool"

text \<open>The filter of \<open>iter_zig_files\<close> on the paths that the walk yields.\<close>

definition iter_zig_files :: "zig_path list \<Rightarrow> zig_path list" where
  "iter_zig_files yielded =
     filter (\<lambda>p. \<not> (lit ''zig-cache'' \<in> set (path_parts p) \<or> lit ''zig-out'' \<in> set (path_parts p)))
       yielded"

text \<open>
  \<^verbatim>\<open>argv = argv or sys.argv[1:]\<close> and
  \<^verbatim>\<open>root = pathlib.Path(argv[0]) if argv else pathlib.Path("src")\<close>:
  \<open>None\<close> and the empty list both give way to the arguments of the process.
  \<open>main_root\<close> is \<open>str(root)\<close>, the form in which the error message prints the path.
\<close>

definition main_root :: "filesystem \<Rightarrow> pystr list option \<Rightarrow> pystr list \<Rightarrow> pystr" where
  "main_root fs argv sys_argv =
     path_string fs
       (case (case argv of None \<Rightarrow> sys_argv | Some [] \<Rightarrow> sys_argv | Some (a # as) \<Rightarrow> a # as) of
          [] \<Rightarrow> lit ''src''
        | a # _ \<Rightarrow> a)"

text \<open>\<open>read_text\<close> inside \<^verbatim>\<open>try: ... except UnicodeDecodeError: continue\<close>.\<close>

definition decoded :: "read_result \<Rightarrow> pystr option" where
  "decoded r = (case r of Text code \<Rightarrow> Some code | Decode_error \<Rightarrow> None | Os_error \<Rightarrow> None)"

text \<open>
  \<open>main\<close>. An exception of \<open>exists\<close> leaves \<open>main\<close> at once. The files are read one by
  one: the first \<open>OSError\<close> of a read is not caught and ends the run behind that read; an
  exception of the walk ends it behind the paths the walk has yielded. Only when every
  read has answered does the run reach the pair loop, with the token mapping that
  \<open>scan_files\<close> builds from the texts.
\<close>

definition main :: "(pystr \<Rightarrow> 'h) \<Rightarrow> ('h \<Rightarrow> 'h \<Rightarrow> int) \<Rightarrow> pystr list option \<Rightarrow> pystr list \<Rightarrow> filesystem \<Rightarrow> outcome \<times> event list" where
  "main hash similar argv sys_argv fs =
     (let root_dir = main_root fs argv sys_argv in
      case path_exists fs root_dir of
        Inl e \<Rightarrow> (Raised e, [])
      | Inr False \<Rightarrow>
          (SystemExit 1, [Print_stderr (lit ''error: path '' @ root_dir @ lit '' does not exist'')])
      | Inr True \<Rightarrow>
          (let paths = map path_str (iter_zig_files (fst (rglob_zig fs root_dir)));
               results = map (\<lambda>p. (p, read_text fs p)) paths;
               answered = takeWhile (\<lambda>(p, r). r \<noteq> Os_error) results;
               walked = Rglob root_dir # map Read_text paths
           in if length answered < length results then
                (Raised OSError, Rglob root_dir # map Read_text (take (length answered + 1) paths))
              else
                (case snd (rglob_zig fs root_dir) of
                   Some e \<Rightarrow> (Raised e, walked)
                 | None \<Rightarrow>
                     (case scan_files hash (map (\<lambda>(p, r). (p, decoded r)) results) [] of
                        Inl e \<Rightarrow> (Raised e, walked)
                      | Inr tokens \<Rightarrow>
                          (let clusters = cluster_pairs similar tokens;
                               out_path = lit ''function_dupes.json''
                           in if write_text_ok fs out_path
                              then (Returned,
                                    walked @ [Write_text out_path clusters,
                                              Print_summary out_path (length clusters)])
                              else (Raised OSError, walked))))))"

text \<open>
  A file system in which no path exists and \<open>./nowhere\<close> is written \<open>nowhere\<close>, and one
  that holds the files of \<open>example_files\<close>.
\<close>

definition empty_world :: filesystem where
  "empty_world =
     \<lparr>path_string = (\<lambda>p. if p = lit ''./nowhere'' then lit ''nowhere'' else p),
      path_exists = (\<lambda>p. Inr False), rglob_zig = (\<lambda>p. ([], None)),
      read_text = (\<lambda>p. Os_error), write_text_ok = (\<lambda>p. True)\<rparr>"

definition example_world :: filesystem where
  "example_world =
     \<lparr>path_string = (\<lambda>p. p),
      path_exists = (\<lambda>p. Inr (p = lit ''src'')),
      rglob_zig = (\<lambda>p. if p = lit ''src''
                        then ([\<lparr>path_str = lit ''x.zig'', path_parts = [lit ''x.zig'']\<rparr>,
                               \<lparr>path_str = lit ''zig-out/o.zig'', path_parts = [lit ''zig-out'', lit ''o.zig'']\<rparr>,
                               \<lparr>path_str = lit ''bad.zig'', path_parts = [lit ''bad.zig'']\<rparr>,
                               \<lparr>path_str = lit ''y.zig'', path_parts = [lit ''y.zig'']\<rparr>], None)
                        else ([], None)),
      read_text = (\<lambda>p. if p = lit ''x.zig'' \<or> p = lit ''y.zig'' then Text example_two_spaces
                         else if p = lit ''bad.zig'' then Decode_error else Os_error),
      write_text_ok = (\<lambda>p. True)\<rparr>"

section \<open>Properties of the regular expressions\<close>

lemma run_le: "p + run a s p \<le> max p (length s)"
proof -
  have "length (takeWhile (accepts a) (drop p s)) \<le> length (drop p s)"
    by (rule length_takeWhile_le)
  then show ?thesis by (simp add: run_def)
qed

lemma ends_bounds:
  "e \<in> set (ends r s p) \<Longrightarrow> p \<le> length s \<Longrightarrow> p + min_len r \<le> e \<and> e \<le> length s"
proof (induction r arbitrary: p e)
  case (One a)
  then show ?case by (auto split: if_splits)
next
  case (Star a)
  with run_le [of p a s] show ?case by auto
next
  case (Plus a)
  with run_le [of p a s] show ?case by auto
next
  case (Opt r)
  then show ?case by fastforce
next
  case (Cat r1 r2)
  from Cat.prems obtain q where q: "q \<in> set (ends r1 s p)" "e \<in> set (ends r2 s q)" by auto
  from Cat.IH(1) [OF q(1) Cat.prems(2)] have "p + min_len r1 \<le> q" "q \<le> length s" by auto
  with Cat.IH(2) [OF q(2)] show ?case by auto
qed

lemma min_len_chars: "min_len (chars cs r) = length cs + min_len r"
  by (induction cs) auto

lemma candidates_iff:
  "(p1, p2, p3) \<in> set (FUNC_RE_candidates s pos) \<longleftrightarrow>
     p1 \<in> set (ends FUNC_RE_head s pos) \<and> p2 \<in> set (ends FUNC_RE_group1 s p1) \<and>
     p3 \<in> set (ends FUNC_RE_tail s p2)"
  by (auto simp: FUNC_RE_candidates_def)

lemma candidates_whole: "map (\<lambda>(p1, p2, p3). p3) (FUNC_RE_candidates s pos) = ends FUNC_RE s pos"
proof -
  have "ends (Cat FUNC_RE_group1 FUNC_RE_tail) s = (\<lambda>p. concat (map (ends FUNC_RE_tail s) (ends FUNC_RE_group1 s p)))"
    by (rule ext) simp
  then show ?thesis
    by (simp add: FUNC_RE_candidates_def FUNC_RE_def map_concat comp_def)
qed

lemma FUNC_RE_match_parts:
  assumes "FUNC_RE_match s pos = Some m"
  obtains p1 p2 where "p1 \<in> set (ends FUNC_RE_head s pos)" "p2 \<in> set (ends FUNC_RE_group1 s p1)"
       "m_end m \<in> set (ends FUNC_RE_tail s p2)" "m_start m = pos" "m_group1 m = slice s p1 p2"
proof -
  from assms obtain p1 p2 p3 rest where c: "FUNC_RE_candidates s pos = (p1, p2, p3) # rest"
    and m: "m = \<lparr>m_start = pos, m_end = p3, m_group1 = slice s p1 p2\<rparr>"
    by (auto simp: FUNC_RE_match_def split: list.splits)
  from c have "(p1, p2, p3) \<in> set (FUNC_RE_candidates s pos)" by simp
  with m that [of p1 p2] show thesis by (simp add: candidates_iff)
qed

lemma FUNC_RE_match_bounds:
  assumes "FUNC_RE_match s pos = Some m" "pos \<le> length s"
  shows "m_start m = pos \<and> pos < m_end m \<and> m_end m \<le> length s"
proof -
  from assms(1) obtain p1 p2 where
    p: "p1 \<in> set (ends FUNC_RE_head s pos)" "p2 \<in> set (ends FUNC_RE_group1 s p1)"
       "m_end m \<in> set (ends FUNC_RE_tail s p2)" "m_start m = pos"
    by (rule FUNC_RE_match_parts)
  from ends_bounds [OF p(1) assms(2)] have 1: "pos < p1" "p1 \<le> length s"
    by (simp_all add: FUNC_RE_head_def min_len_chars lit_def)
  from ends_bounds [OF p(2) 1(2)] have 2: "p1 \<le> p2" "p2 \<le> length s" by simp_all
  from ends_bounds [OF p(3) 2(2)] have "p2 \<le> m_end m" "m_end m \<le> length s" by simp_all
  with 1 2 p(4) show ?thesis by simp
qed

lemma finditer_bounds:
  "m \<in> set (finditer s pos) \<Longrightarrow> pos \<le> m_start m \<and> m_start m < m_end m \<and> m_end m \<le> length s"
proof (induction s pos rule: finditer.induct)
  case (1 s pos)
  show ?case
  proof (cases "length s < pos")
    case True
    with "1.prems" show ?thesis by simp
  next
    case False
    show ?thesis
    proof (cases "FUNC_RE_match s pos")
      case None
      with False "1.prems" "1.IH"(1) show ?thesis by fastforce
    next
      case (Some m')
      with False FUNC_RE_match_bounds [of s pos m']
      have b: "m_start m' = pos" "pos < m_end m'" "m_end m' \<le> length s" by simp_all
      from Some False "1.prems" b have "m = m' \<or> m \<in> set (finditer s (m_end m'))" by simp
      then show ?thesis
      proof
        assume "m = m'" with b show ?thesis by simp
      next
        assume "m \<in> set (finditer s (m_end m'))"
        with "1.IH"(2) [OF False Some] b show ?thesis by simp
      qed
    qed
  qed
qed

lemma ends_CatE:
  assumes "e \<in> set (ends (Cat r1 r2) s p)"
  obtains q where "q \<in> set (ends r1 s p)" "e \<in> set (ends r2 s q)"
  using assms by auto

lemma ends_One_last: "e \<in> set (ends (One (Chr c)) s p) \<Longrightarrow> s ! (e - 1) = c"
  by (auto split: if_splits)

lemma FUNC_RE_match_brace:
  assumes "FUNC_RE_match s pos = Some m"
  shows "s ! (m_end m - 1) = lbrace"
proof -
  from assms obtain p2 where "m_end m \<in> set (ends FUNC_RE_tail s p2)"
    by (rule FUNC_RE_match_parts)
  then show ?thesis
    unfolding FUNC_RE_tail_def
    by (elim ends_CatE) (rule ends_One_last)
qed

lemma finditer_brace: "m \<in> set (finditer s pos) \<Longrightarrow> s ! (m_end m - 1) = lbrace"
proof (induction s pos rule: finditer.induct)
  case (1 s pos)
  show ?case
  proof (cases "length s < pos")
    case True
    with "1.prems" show ?thesis by simp
  next
    case False
    show ?thesis
    proof (cases "FUNC_RE_match s pos")
      case None
      with False "1.prems" "1.IH"(1) show ?thesis by fastforce
    next
      case (Some m')
      from Some False "1.prems"
      have "m = m' \<or> m \<in> set (finditer s (if pos < m_end m' then m_end m' else pos + 1))" by simp
      then show ?thesis
      proof
        assume "m = m'" with FUNC_RE_match_brace [OF Some] show ?thesis by simp
      next
        assume "m \<in> set (finditer s (if pos < m_end m' then m_end m' else pos + 1))"
        with "1.IH"(2) [OF False Some] show ?thesis by simp
      qed
    qed
  qed
qed

section \<open>Properties of the brace scan\<close>

lemma slice_step: "i < j \<Longrightarrow> i < length s \<Longrightarrow> slice s i j = s ! i # slice s (i + 1) j"
  by (simp add: slice_def Cons_nth_drop_Suc [symmetric] take_Suc_Cons [symmetric] Suc_diff_Suc del: take_Suc_Cons)

lemma slice_same: "slice s i i = []"
  by (simp add: slice_def)

lemma slice_snoc: "i \<le> j \<Longrightarrow> j < length s \<Longrightarrow> slice s i (j + 1) = slice s i j @ [s ! j]"
  by (simp add: slice_def Suc_diff_le take_Suc_conv_app_nth)

lemma slice_to_end: "slice s i (length s) = drop i s"
  by (simp add: slice_def)

lemma depth_after_start: "depth_after s e e = 1"
  by (simp add: depth_after_def slice_same)

lemma depth_after_step:
  "e \<le> j \<Longrightarrow> j < length s \<Longrightarrow> depth_after s e (j + 1) = brace_step (s ! j) (depth_after s e j)"
  using slice_snoc [of e j s] by (simp add: depth_after_def)

lemma depth_positive:
  "e \<le> n \<Longrightarrow> n \<le> length s \<Longrightarrow> \<forall>j. e \<le> j \<and> j \<le> n \<longrightarrow> depth_after s e j \<noteq> 0 \<Longrightarrow>
   0 < depth_after s e n"
proof (induction n)
  case 0
  then show ?case by (simp add: depth_after_start)
next
  case (Suc n)
  show ?case
  proof (cases "e = Suc n")
    case True
    then show ?thesis by (simp add: depth_after_start)
  next
    case False
    with Suc.prems have le: "e \<le> n" "n < length s" by simp_all
    with Suc.IH Suc.prems have pos: "0 < depth_after s e n" by simp
    from Suc.prems have nz: "depth_after s e (n + 1) \<noteq> 0" by simp
    from depth_after_step [OF le] pos nz show ?thesis
      by (auto simp: brace_step_def split: if_splits)
  qed
qed

lemma scan_never_raises: "\<exists>k. scan source i depth = Inr k"
proof (induction source i depth rule: scan.induct)
  case (1 source i depth)
  show ?case
  proof (cases "i < length source \<and> depth \<noteq> 0")
    case True
    then have "char_at source i = Inr (source ! i)" by (simp add: char_at_def)
    with True "1.IH" [of "source ! i"] show ?thesis by simp
  next
    case False
    then show ?thesis by auto
  qed
qed

lemma scan_spec:
  "scan source i depth = Inr k \<Longrightarrow> i \<le> length source \<Longrightarrow>
   i \<le> k \<and> k \<le> length source \<and>
   (\<forall>j. i \<le> j \<and> j < k \<longrightarrow> fold brace_step (slice source i j) depth \<noteq> 0) \<and>
   (fold brace_step (slice source i k) depth = 0 \<or> k = length source)"
proof (induction source i depth rule: scan.induct)
  case (1 source i depth)
  show ?case
  proof (cases "i < length source \<and> depth \<noteq> 0")
    case True
    then have c: "char_at source i = Inr (source ! i)" by (simp add: char_at_def)
    with True "1.prems" have s: "scan source (i + 1) (brace_step (source ! i) depth) = Inr k"
      by simp
    from "1.IH" [OF True c s] True
    have ih: "i + 1 \<le> k" "k \<le> length source"
      "\<forall>j. i + 1 \<le> j \<and> j < k \<longrightarrow> fold brace_step (slice source (i + 1) j) (brace_step (source ! i) depth) \<noteq> 0"
      "fold brace_step (slice source (i + 1) k) (brace_step (source ! i) depth) = 0 \<or> k = length source"
      by auto
    have st: "\<And>j. i < j \<Longrightarrow> fold brace_step (slice source i j) depth =
                fold brace_step (slice source (i + 1) j) (brace_step (source ! i) depth)"
      using True by (simp add: slice_step)
    have "\<forall>j. i \<le> j \<and> j < k \<longrightarrow> fold brace_step (slice source i j) depth \<noteq> 0"
    proof (intro allI impI)
      fix j assume j: "i \<le> j \<and> j < k"
      show "fold brace_step (slice source i j) depth \<noteq> 0"
      proof (cases "i = j")
        case True
        with \<open>i < length source \<and> depth \<noteq> 0\<close> show ?thesis by (simp add: slice_same)
      next
        case False
        with j have "i < j" by simp
        with ih(3) j st [of j] show ?thesis by simp
      qed
    qed
    moreover have "fold brace_step (slice source i k) depth = 0 \<or> k = length source"
      using ih(1,4) st [of k] by auto
    ultimately show ?thesis using ih(1,2) by simp
  next
    case False
    with "1.prems" have "k = i" by auto
    with False "1.prems" show ?thesis by (auto simp: slice_same)
  qed
qed

lemma function_body_spec:
  assumes "m_end m \<le> length source"
  obtains i where "function_body source m = Inr (slice source (m_start m) i)"
    "m_end m \<le> i" "i \<le> length source"
    "\<forall>j. m_end m \<le> j \<and> j < i \<longrightarrow> depth_after source (m_end m) j \<noteq> 0"
    "depth_after source (m_end m) i = 0 \<or> i = length source"
proof -
  from scan_never_raises obtain i where i: "scan source (m_end m) 1 = Inr i" by blast
  from scan_spec [OF i assms]
  have "m_end m \<le> i" "i \<le> length source"
    "\<forall>j. m_end m \<le> j \<and> j < i \<longrightarrow> depth_after source (m_end m) j \<noteq> 0"
    "depth_after source (m_end m) i = 0 \<or> i = length source"
    unfolding depth_after_def by blast+
  moreover from i have "function_body source m = Inr (slice source (m_start m) i)"
    by (simp add: function_body_def)
  ultimately show thesis using that [of i] by blast
qed

lemma function_body_never_raises: "\<exists>body. function_body source m = Inr body"
  using scan_never_raises [of source "m_end m" 1] by (auto simp: function_body_def)

lemma extract_loop_eq:
  "extract_loop source ms fs =
     Inr (fs @ map (\<lambda>m. (m_group1 m, normalize_body (projr (function_body source m)))) ms)"
proof (induction ms arbitrary: fs)
  case Nil
  show ?case by simp
next
  case (Cons m ms)
  from function_body_never_raises obtain body where "function_body source m = Inr body" by blast
  with Cons.IH show ?case by simp
qed

lemma extract_functions_eq:
  "extract_functions source =
     Inr (map (\<lambda>m. (m_group1 m, normalize_body (projr (function_body source m)))) (finditer source 0))"
  by (simp add: extract_functions_def extract_loop_eq)

section \<open>Function Extractor: bodies with balanced and unbalanced braces\<close>

text \<open>
  The brace scan on a declaration that \<open>FUNC_RE\<close> as written does match (one with the
  literal backslashes the pattern asks for). Let the braces behind its opening brace be
  balanced: the depth counter, which starts at 1 behind the opening brace at
  \<open>m.end() - 1\<close>, is 0 after some prefix of the rest of the text. Then the local \<open>body\<close>
  of \<open>extract_functions\<close> is exactly \<open>source[m.start():i]\<close>, where \<open>i - 1\<close> is the
  position of a closing brace; the counter is 0 at \<open>i\<close> and positive at every earlier
  position of the span. The pair that \<open>extract_functions\<close> returns for \<open>m\<close> holds the
  name and the normalized form of this body.
\<close>

lemma matched_balanced_body:
  assumes "m \<in> set (finditer source 0)"
    and "\<exists>n. m_end m \<le> n \<and> n \<le> length source \<and> depth_after source (m_end m) n = 0"
  shows "\<exists>i fs. function_body source m = Inr (slice source (m_start m) i) \<and>
           extract_functions source = Inr fs \<and>
           (m_group1 m, normalize_body (slice source (m_start m) i)) \<in> set fs \<and>
           m_start m < m_end m \<and> m_end m < i \<and> i \<le> length source \<and>
           source ! (m_end m - 1) = lbrace \<and> source ! (i - 1) = rbrace \<and>
           depth_after source (m_end m) i = 0 \<and>
           (\<forall>j. m_end m \<le> j \<and> j < i \<longrightarrow> 0 < depth_after source (m_end m) j)"
proof -
  let ?e = "m_end m"
  from finditer_bounds [OF assms(1)] have b: "m_start m < ?e" "?e \<le> length source" by simp_all
  from function_body_spec [OF b(2)] obtain i where i:
    "function_body source m = Inr (slice source (m_start m) i)" "?e \<le> i" "i \<le> length source"
    "\<forall>j. ?e \<le> j \<and> j < i \<longrightarrow> depth_after source ?e j \<noteq> 0"
    "depth_after source ?e i = 0 \<or> i = length source"
    by blast
  from assms(2) obtain n where n: "?e \<le> n" "n \<le> length source" "depth_after source ?e n = 0"
    by blast
  have zero: "depth_after source ?e i = 0"
  proof (rule ccontr)
    assume nz: "depth_after source ?e i \<noteq> 0"
    with i(5) have "i = length source" by simp
    with n(1,2) i(4) nz have "depth_after source ?e n \<noteq> 0"
      by (cases "n = i") auto
    with n(3) show False by simp
  qed
  have "i \<noteq> ?e" using zero by (auto simp: depth_after_start)
  with i(2) have lt: "?e < i" by simp
  have pos: "\<forall>j. ?e \<le> j \<and> j < i \<longrightarrow> 0 < depth_after source ?e j"
  proof (intro allI impI)
    fix j assume j: "?e \<le> j \<and> j < i"
    with i(3,4) show "0 < depth_after source ?e j"
      by (intro depth_positive) auto
  qed
  have last: "source ! (i - 1) = rbrace"
  proof -
    from lt i(3) have r: "?e \<le> i - 1" "i - 1 < length source" by simp_all
    from pos lt have p: "0 < depth_after source ?e (i - 1)" by simp
    from depth_after_step [OF r] lt zero
    have "brace_step (source ! (i - 1)) (depth_after source ?e (i - 1)) = 0" by simp
    with p show ?thesis by (auto simp: brace_step_def split: if_splits)
  qed
  let ?fs = "map (\<lambda>m. (m_group1 m, normalize_body (projr (function_body source m)))) (finditer source 0)"
  have fs: "extract_functions source = Inr ?fs" by (rule extract_functions_eq)
  have mem: "(m_group1 m, normalize_body (slice source (m_start m) i)) \<in> set ?fs"
    using assms(1) i(1) by force
  from i(1) fs mem b(1) lt i(3) finditer_brace [OF assms(1)] last zero pos
  show ?thesis by blast
qed

lemma matched_balanced_body_example:
  "example_match \<in> set (finditer example_balanced 0) \<and>
   (\<exists>n. m_end example_match \<le> n \<and> n \<le> length example_balanced \<and>
        depth_after example_balanced (m_end example_match) n = 0) \<and>
   (\<exists>i fs. function_body example_balanced example_match =
             Inr (slice example_balanced (m_start example_match) i) \<and>
           extract_functions example_balanced = Inr fs \<and>
           (m_group1 example_match, normalize_body (slice example_balanced (m_start example_match) i)) \<in> set fs \<and>
           m_start example_match < m_end example_match \<and> m_end example_match < i \<and>
           i \<le> length example_balanced \<and>
           example_balanced ! (m_end example_match - 1) = lbrace \<and>
           example_balanced ! (i - 1) = rbrace \<and>
           depth_after example_balanced (m_end example_match) i = 0 \<and>
           (\<forall>j. m_end example_match \<le> j \<and> j < i \<longrightarrow>
                0 < depth_after example_balanced (m_end example_match) j))"
proof -
  have h1: "example_match \<in> set (finditer example_balanced 0)" by code_simp
  have "m_end example_match \<le> 25 \<and> 25 \<le> length example_balanced \<and>
        depth_after example_balanced (m_end example_match) 25 = 0" by code_simp
  then have h2: "\<exists>n. m_end example_match \<le> n \<and> n \<le> length example_balanced \<and>
        depth_after example_balanced (m_end example_match) n = 0" by (rule exI)
  from h1 h2 matched_balanced_body [OF h1 h2] show ?thesis by blast
qed

lemma ends_One_in_set: "e \<in> set (ends (One (Chr c)) s p) \<Longrightarrow> c \<in> set s"
  by (auto split: if_splits)

lemma FUNC_RE_head_needs_backslash:
  assumes "e \<in> set (ends FUNC_RE_head s p)"
  shows "backslash \<in> set s"
proof -
  have h: "FUNC_RE_head = Cat (Opt (chars (lit ''pub'') (Cat (One (Chr backslash)) (Plus (Chr (of_char CHR ''s''))))))
      (Cat (One (Chr (of_char CHR ''f''))) (Cat (One (Chr (of_char CHR ''n'')))
        (Cat (One (Chr backslash)) (Plus (Chr (of_char CHR ''s''))))))"
    by (simp add: FUNC_RE_head_def lit_def)
  from assms obtain q1 where "e \<in> set (ends (Cat (One (Chr (of_char CHR ''f''))) (Cat (One (Chr (of_char CHR ''n'')))
        (Cat (One (Chr backslash)) (Plus (Chr (of_char CHR ''s'')))))) s q1)"
    unfolding h by (rule ends_CatE)
  then obtain q2 where "e \<in> set (ends (Cat (One (Chr (of_char CHR ''n'')))
        (Cat (One (Chr backslash)) (Plus (Chr (of_char CHR ''s''))))) s q2)"
    by (rule ends_CatE)
  then obtain q3 where "e \<in> set (ends (Cat (One (Chr backslash)) (Plus (Chr (of_char CHR ''s'')))) s q3)"
    by (rule ends_CatE)
  then obtain q4 where "q4 \<in> set (ends (One (Chr backslash)) s q3)"
    by (rule ends_CatE)
  then show ?thesis by (rule ends_One_in_set)
qed

lemma no_backslash_no_match:
  assumes "backslash \<notin> set s"
  shows "FUNC_RE_match s pos = None"
proof (cases "FUNC_RE_match s pos")
  case None
  then show ?thesis .
next
  case (Some m)
  then obtain p1 where "p1 \<in> set (ends FUNC_RE_head s pos)" by (rule FUNC_RE_match_parts)
  with assms FUNC_RE_head_needs_backslash show ?thesis by blast
qed

lemma no_backslash_finditer: "backslash \<notin> set s \<Longrightarrow> finditer s pos = []"
proof (induction s pos rule: finditer.induct)
  case (1 s pos)
  show ?case
  proof (cases "length s < pos")
    case True
    then show ?thesis by simp
  next
    case False
    from "1.prems" have n: "FUNC_RE_match s pos = None" by (rule no_backslash_no_match)
    from "1.IH"(1) [OF False n "1.prems"] have "finditer s (pos + 1) = []" .
    with False n show ?thesis by simp
  qed
qed

lemma no_backslash_no_function:
  "backslash \<notin> set source \<Longrightarrow> extract_functions source = Inr []"
  by (simp add: extract_functions_def no_backslash_finditer del: finditer.simps)

text \<open>
  Claim C1 at the declarations of the spec's own scenarios. \<open>FUNC_RE\<close> as written needs a
  backslash behind \<open>fn\<close>, so it matches no declaration of the scanned language:
  \<open>extract_functions\<close> returns the empty list for each of these texts, whose braces are
  balanced, and no body is extracted.
\<close>

theorem extractor_misses_declarations:
  "extract_functions (lit ''fn a() { return 1; }'') = Inr [] \<and>
   extract_functions (lit ''fn b() { while (true) { doSomethingElseEntirely(); } }'') = Inr [] \<and>
   extract_functions (lit ''pub fn foo() { a(); b(); }'') = Inr []"
proof -
  have "backslash \<notin> set (lit ''fn a() { return 1; }'')"
    by (simp add: lit_def backslash_def)
  moreover have "backslash \<notin> set (lit ''fn b() { while (true) { doSomethingElseEntirely(); } }'')"
    by (simp add: lit_def backslash_def)
  moreover have "backslash \<notin> set (lit ''pub fn foo() { a(); b(); }'')"
    by (simp add: lit_def backslash_def)
  ultimately show ?thesis by (intro conjI no_backslash_no_function)
qed



section \<open>Normalizer\<close>

lemma run_pos_iff: "0 < run a s p \<longleftrightarrow> p < length s \<and> accepts a (s ! p)"
proof (cases "p < length s")
  case True
  then have "drop p s = s ! p # drop (Suc p) s" by (simp add: Cons_nth_drop_Suc)
  with True show ?thesis by (simp add: run_def)
next
  case False
  then show ?thesis by (simp add: run_def)
qed

lemma ends_WS_RE_empty_iff:
  "ends WS_RE s p = [] \<longleftrightarrow> \<not> (Suc p < length s \<and> s ! p = backslash \<and> s ! Suc p = of_char CHR ''s'')"
  using run_pos_iff [of "Chr (of_char CHR ''s'')" s "Suc p"]
  by (auto simp: WS_RE_def)

lemma search_None: "search r s pos = None \<Longrightarrow> pos \<le> q \<Longrightarrow> q \<le> length s \<Longrightarrow> ends r s q = []"
proof (induction r s pos rule: search.induct)
  case (1 r s pos)
  from "1.prems" have np: "\<not> length s < pos" by simp
  with "1.prems" have e: "ends r s pos = []" by (auto split: list.splits)
  with np "1.prems" have n: "search r s (pos + 1) = None" by simp
  show ?case
  proof (cases "q = pos")
    case True
    with e show ?thesis by simp
  next
    case False
    with "1.prems" have "pos + 1 \<le> q" by simp
    from "1.IH" [OF np e n this "1.prems"(3)] show ?thesis .
  qed
qed

lemma search_Some:
  "search r s pos = Some (st, e) \<Longrightarrow>
   (\<exists>es. ends r s st = e # es) \<and> (\<forall>q. pos \<le> q \<and> q < st \<longrightarrow> ends r s q = [])"
proof (induction r s pos rule: search.induct)
  case (1 r s pos)
  from "1.prems" have np: "\<not> length s < pos" by (auto split: if_splits)
  show ?case
  proof (cases "ends r s pos")
    case Nil
    with np "1.prems" have n: "search r s (pos + 1) = Some (st, e)" by simp
    from "1.IH" [OF np Nil n]
    have ih: "\<exists>es. ends r s st = e # es" "\<forall>q. pos + 1 \<le> q \<and> q < st \<longrightarrow> ends r s q = []" by auto
    have "\<forall>q. pos \<le> q \<and> q < st \<longrightarrow> ends r s q = []"
    proof (intro allI impI)
      fix q assume "pos \<le> q \<and> q < st"
      with ih(2) Nil show "ends r s q = []" by (cases "q = pos") auto
    qed
    with ih(1) show ?thesis by simp
  next
    case (Cons x xs)
    with np "1.prems" show ?thesis by auto
  qed
qed


lemma has_ws_appendI1: "has_ws a \<Longrightarrow> has_ws (a @ b)"
proof -
  assume "has_ws a"
  then obtain p where p: "Suc p < length a" "a ! p = backslash" "a ! Suc p = of_char CHR ''s''"
    by (auto simp: has_ws_def)
  then have "Suc p < length (a @ b) \<and> (a @ b) ! p = backslash \<and> (a @ b) ! Suc p = of_char CHR ''s''"
    by (simp add: nth_append)
  then show ?thesis unfolding has_ws_def by blast
qed

lemma has_ws_appendI2: "has_ws b \<Longrightarrow> has_ws (a @ b)"
proof -
  assume "has_ws b"
  then obtain p where p: "Suc p < length b" "b ! p = backslash" "b ! Suc p = of_char CHR ''s''"
    by (auto simp: has_ws_def)
  then have "Suc (length a + p) < length (a @ b) \<and> (a @ b) ! (length a + p) = backslash \<and>
      (a @ b) ! Suc (length a + p) = of_char CHR ''s''"
    by (simp add: nth_append)
  then show ?thesis unfolding has_ws_def by blast
qed

lemma has_ws_space:
  assumes "has_ws (a @ [space] @ b)"
  shows "has_ws a \<or> has_ws b"
proof -
  let ?t = "a @ [space] @ b"
  from assms obtain p where p: "Suc p < length ?t" "?t ! p = backslash" "?t ! Suc p = of_char CHR ''s''"
    unfolding has_ws_def by blast
  have sp: "space \<noteq> backslash" "space \<noteq> of_char CHR ''s''"
    by (simp_all add: space_def backslash_def)
  consider "Suc p < length a" | "Suc p = length a" | "p = length a" | "length a < p"
    by linarith
  then show ?thesis
  proof cases
    case 1
    with p have "a ! p = backslash \<and> a ! Suc p = of_char CHR ''s''" by (simp add: nth_append)
    with 1 show ?thesis unfolding has_ws_def by blast
  next
    case 2
    with p(3) sp show ?thesis by (simp add: nth_append)
  next
    case 3
    with p(2) sp show ?thesis by (simp add: nth_append)
  next
    case 4
    define q where "q = p - Suc (length a)"
    with 4 have pq: "p = Suc (length a) + q" by simp
    from p have "Suc q < length b \<and> b ! q = backslash \<and> b ! Suc q = of_char CHR ''s''"
      unfolding pq by (simp add: nth_append)
    then show ?thesis unfolding has_ws_def by blast
  qed
qed

lemma no_ws_slice:
  assumes "\<forall>q. pos \<le> q \<and> q < st \<longrightarrow> ends WS_RE s q = []" "st \<le> length s"
  shows "\<not> has_ws (slice s pos st)"
proof
  assume "has_ws (slice s pos st)"
  then obtain p where p: "Suc p < length (slice s pos st)" "slice s pos st ! p = backslash"
    "slice s pos st ! Suc p = of_char CHR ''s''"
    unfolding has_ws_def by blast
  from p(1) assms(2) have l: "Suc (pos + p) < st" by (simp add: slice_def)
  with p assms(2) have "s ! (pos + p) = backslash" "s ! Suc (pos + p) = of_char CHR ''s''"
    by (simp_all add: slice_def)
  with l assms(2) have "ends WS_RE s (pos + p) \<noteq> []"
    by (simp add: ends_WS_RE_empty_iff)
  with assms(1) l show False by simp
qed

lemma sub_from_no_ws: "\<not> has_ws (sub_from WS_RE [space] s pos)"
proof (induction "length s + 1 - pos" arbitrary: pos rule: less_induct)
  case less
  show ?case
  proof (cases "search WS_RE s pos")
    case None
    show ?thesis
    proof (cases "pos \<le> length s")
      case True
      from search_None [OF None] have "\<forall>q. pos \<le> q \<and> q < length s \<longrightarrow> ends WS_RE s q = []"
        by simp
      then have "\<not> has_ws (slice s pos (length s))" by (rule no_ws_slice) simp
      with None show ?thesis by (simp add: slice_to_end)
    next
      case False
      with None show ?thesis by (simp add: has_ws_def)
    qed
  next
    case (Some m)
    obtain st e where m: "m = (st, e)" by (cases m)
    with Some have s: "search WS_RE s pos = Some (st, e)" by simp
    from search_bounds [OF s] have b: "pos \<le> st" "st \<le> length s" by simp_all
    from search_Some [OF s] obtain es where es: "ends WS_RE s st = e # es"
      and left: "\<forall>q. pos \<le> q \<and> q < st \<longrightarrow> ends WS_RE s q = []" by blast
    from es have "e \<in> set (ends WS_RE s st)" by simp
    from ends_bounds [OF this b(2)] have e: "st < e" "e \<le> length s" by (simp_all add: WS_RE_def)
    from s e have eq: "sub_from WS_RE [space] s pos = slice s pos st @ [space] @ sub_from WS_RE [space] s e"
      by simp
    from b e have "length s + 1 - e < length s + 1 - pos" by simp
    then have "\<not> has_ws (sub_from WS_RE [space] s e)" by (rule less)
    moreover from left b(2) have "\<not> has_ws (slice s pos st)" by (rule no_ws_slice)
    ultimately show ?thesis unfolding eq using has_ws_space by blast
  qed
qed

lemma re_sub_fixed:
  assumes "\<not> has_ws s"
  shows "re_sub WS_RE repl s = s"
proof (cases "search WS_RE s 0")
  case None
  then show ?thesis by (simp add: re_sub_def)
next
  case (Some m)
  obtain st e where "m = (st, e)" by (cases m)
  with Some have s: "search WS_RE s 0 = Some (st, e)" by simp
  from search_Some [OF s] have "ends WS_RE s st \<noteq> []" by auto
  with assms show ?thesis by (auto simp: ends_WS_RE_empty_iff has_ws_def)
qed

lemma strip_sublist: "\<exists>a b. s = a @ strip s @ b"
proof -
  have "s = takeWhile isspace s @ dropWhile isspace s" by simp
  moreover have "dropWhile isspace s =
      rev (dropWhile isspace (rev (dropWhile isspace s))) @ rev (takeWhile isspace (rev (dropWhile isspace s)))"
    by (metis rev_append rev_rev_ident takeWhile_dropWhile_id)
  ultimately show ?thesis unfolding strip_def by metis
qed

lemma strip_no_ws: "\<not> has_ws s \<Longrightarrow> \<not> has_ws (strip s)"
  using strip_sublist [of s] has_ws_appendI1 has_ws_appendI2 by metis

lemma dropWhile_fixed: "xs = [] \<or> \<not> P (hd xs) \<Longrightarrow> dropWhile P xs = xs"
  by (cases xs) auto

lemma strip_idem: "strip (strip s) = strip s"
proof -
  define t where "t = dropWhile isspace s"
  define u where "u = dropWhile isspace (rev t)"
  have t: "t = [] \<or> \<not> isspace (hd t)" unfolding t_def by (metis hd_dropWhile)
  have u: "u = [] \<or> \<not> isspace (hd u)" unfolding u_def by (metis hd_dropWhile)
  have st: "strip s = rev u" by (simp add: strip_def t_def u_def)
  have "rev t = takeWhile isspace (rev t) @ u" by (simp add: u_def)
  then have tu: "t = rev u @ rev (takeWhile isspace (rev t))" by (metis rev_append rev_rev_ident)
  have "rev u = [] \<or> \<not> isspace (hd (rev u))"
  proof (cases "u = []")
    case True then show ?thesis by simp
  next
    case False
    then have "hd t = hd (rev u)" using tu by (metis hd_append2 rev_is_Nil_conv)
    moreover from False tu have "t \<noteq> []" by auto
    ultimately show ?thesis using t by simp
  qed
  then have 1: "dropWhile isspace (rev u) = rev u" by (rule dropWhile_fixed)
  from u have 2: "dropWhile isspace u = u" by (rule dropWhile_fixed)
  show ?thesis unfolding st by (simp add: strip_def 1 2)
qed

text \<open>
  Claim C8. The Normalizer is idempotent: normalizing a normalized body changes nothing.
  After the substitution no backslash is followed by an \<open>s\<close>, \<open>strip\<close> keeps a
  contiguous part of the string, so a second substitution finds no match, and stripping
  twice is stripping once.
\<close>

theorem normalize_idempotent: "normalize_body (normalize_body body) = normalize_body body"
proof -
  have "\<not> has_ws (re_sub WS_RE [space] body)" unfolding re_sub_def by (rule sub_from_no_ws)
  then have "\<not> has_ws (normalize_body body)" unfolding normalize_body_def by (rule strip_no_ws)
  then have "re_sub WS_RE [space] (normalize_body body) = normalize_body body" by (rule re_sub_fixed)
  then have "normalize_body (normalize_body body) = strip (normalize_body body)" by (simp add: normalize_body_def)
  also have "\<dots> = normalize_body body" by (simp add: normalize_body_def strip_idem)
  finally show ?thesis .
qed

lemma strip_unspaced: "s \<noteq> [] \<Longrightarrow> \<not> isspace (hd s) \<Longrightarrow> \<not> isspace (last s) \<Longrightarrow> strip s = s"
proof -
  assume a: "s \<noteq> []" "\<not> isspace (hd s)" "\<not> isspace (last s)"
  then have 1: "dropWhile isspace s = s" by (intro dropWhile_fixed) simp
  from a have 2: "dropWhile isspace (rev s) = rev s" by (intro dropWhile_fixed) (simp add: hd_rev)
  show ?thesis by (simp add: strip_def 1 2)
qed

lemma extract_single:
  assumes "finditer source 0 = [m]" "function_body source m = Inr body"
    "re_sub WS_RE [space] body = clean" "clean \<noteq> []" "\<not> isspace (hd clean)" "\<not> isspace (last clean)"
  shows "extract_functions source = Inr [(m_group1 m, clean)]"
  using assms strip_unspaced [of clean]
  by (simp add: extract_functions_def normalize_body_def)

lemma extract_example_two_spaces:
  "extract_functions example_two_spaces =
     Inr [([backslash, of_char CHR ''w''], example_decl_clean @ lit '' a  b }'')]"
proof -
  have "extract_functions example_two_spaces =
      Inr [(m_group1 example_match, example_decl_clean @ lit '' a  b }'')]"
  proof (rule extract_single)
    show "finditer example_two_spaces 0 = [example_match]" by code_simp
    show "function_body example_two_spaces example_match = Inr example_two_spaces" by code_simp
    show "re_sub WS_RE [space] example_two_spaces = example_decl_clean @ lit '' a  b }''"
      by code_simp
  qed (simp_all add: example_decl_clean_def lit_def isspace_def)
  then show ?thesis by (simp add: example_match_def)
qed

lemma extract_example_one_space:
  "extract_functions example_one_space =
     Inr [([backslash, of_char CHR ''w''], example_decl_clean @ lit '' a b }'')]"
proof -
  have "extract_functions example_one_space =
      Inr [(m_group1 example_match, example_decl_clean @ lit '' a b }'')]"
  proof (rule extract_single)
    show "finditer example_one_space 0 = [example_match]" by code_simp
    show "function_body example_one_space example_match = Inr example_one_space" by code_simp
    show "re_sub WS_RE [space] example_one_space = example_decl_clean @ lit '' a b }''"
      by code_simp
  qed (simp_all add: example_decl_clean_def lit_def isspace_def)
  then show ?thesis by (simp add: example_match_def)
qed

text \<open>
  Claim C2 at two concrete texts. The bodies of \<open>example_two_spaces\<close> and
  \<open>example_one_space\<close> differ only in a run of two spaces against one. The substitution
  of the Normalizer replaces the backslash and \<open>s\<close> behind \<open>fn\<close> by a space and leaves
  the run of two spaces as it is, so the two normalized bodies differ.
\<close>

theorem normalizer_keeps_whitespace_runs:
  "extract_functions example_two_spaces =
     Inr [([backslash, of_char CHR ''w''], example_decl_clean @ lit '' a  b }'')] \<and>
   extract_functions example_one_space =
     Inr [([backslash, of_char CHR ''w''], example_decl_clean @ lit '' a b }'')] \<and>
   example_decl_clean @ lit '' a  b }'' \<noteq> example_decl_clean @ lit '' a b }''"
  using extract_example_two_spaces extract_example_one_space by (simp add: lit_def)

text \<open>
  A declaration in the scanned language's own syntax holds no backslash, so \<open>FUNC_RE\<close> as
  written does not match it.
\<close>

lemma plain_declaration_not_matched:
  "extract_functions (lit ''fn foo() { a(); b(); }'') = Inr []"
  by code_simp

section \<open>Cluster Aggregator\<close>

lemma map_of_setdefault_append:
  "map_of (setdefault_append h x cl) = (map_of cl)(h \<mapsto> cluster_list cl h @ [x])"
proof (cases "map_of cl h")
  case None
  then show ?thesis
    by (auto simp: setdefault_append_def cluster_list_def map_add_def fun_eq_iff split: option.splits)
next
  case (Some l)
  then show ?thesis
    by (simp add: setdefault_append_def cluster_list_def update_conv')
qed

lemma cluster_list_setdefault_append:
  "cluster_list (setdefault_append h x cl) h' =
     (if h' = h then cluster_list cl h @ [x] else cluster_list cl h')"
  by (simp add: cluster_list_def [of "setdefault_append h x cl"] map_of_setdefault_append)
     (simp add: cluster_list_def)

lemma distinct_setdefault_append:
  "distinct (map fst cl) \<Longrightarrow> distinct (map fst (setdefault_append h x cl))"
  by (auto simp: setdefault_append_def distinct_update map_of_eq_None_iff split: option.splits)

lemma cluster_list_inner:
  "cluster_list (fold (compare_pair similar items i) js cl) h =
     cluster_list cl h @
     (if h = key_string (fst (items ! i))
      then map (\<lambda>j. fst (items ! j)) (filter (\<lambda>j. 90 < similar (snd (items ! i)) (snd (items ! j))) js)
      else [])"
proof (induction js arbitrary: cl)
  case Nil
  show ?case by simp
next
  case (Cons j js)
  show ?case
    by (simp add: Cons.IH) (simp add: compare_pair_def cluster_list_setdefault_append)
qed

lemma cluster_list_inner_loop:
  "cluster_list (inner_loop similar items i cl) h =
     cluster_list cl h @ (if key_string (fst (items ! i)) = h then members_of similar items i else [])"
  by (simp add: inner_loop_def cluster_list_inner members_of_def)

lemma cluster_list_outer:
  "cluster_list (fold (inner_loop similar items) is cl) h =
     cluster_list cl h @
     concat (map (\<lambda>i. if key_string (fst (items ! i)) = h then members_of similar items i else []) is)"
proof (induction "is" arbitrary: cl)
  case Nil
  show ?case by simp
next
  case (Cons i "is")
  show ?case by (simp add: Cons.IH cluster_list_inner_loop)
qed

lemma cluster_list_cluster_pairs:
  "cluster_list (cluster_pairs similar items) h =
     concat (map (\<lambda>i. if key_string (fst (items ! i)) = h then members_of similar items i else [])
                 [0 ..< length items])"
  by (simp add: cluster_pairs_def cluster_list_outer) (simp add: cluster_list_def)

lemma nonempty_lists_map_of:
  "nonempty_lists cl \<longleftrightarrow> distinct (map fst cl) \<and> (\<forall>h. map_of cl h \<noteq> Some [])"
proof -
  have "distinct (map fst cl) \<Longrightarrow> ([] \<in> snd ` set cl) = (\<exists>h. map_of cl h = Some [])"
    by (force simp: image_iff)
  then show ?thesis unfolding nonempty_lists_def by blast
qed

lemma nonempty_setdefault_append:
  "nonempty_lists cl \<Longrightarrow> nonempty_lists (setdefault_append h x cl)"
  unfolding nonempty_lists_map_of
  by (simp add: distinct_setdefault_append map_of_setdefault_append)

lemma nonempty_inner: "nonempty_lists cl \<Longrightarrow> nonempty_lists (fold (compare_pair similar items i) js cl)"
  by (induction js arbitrary: cl) (simp_all add: compare_pair_def nonempty_setdefault_append Let_def)

lemma nonempty_outer: "nonempty_lists cl \<Longrightarrow> nonempty_lists (fold (inner_loop similar items) is cl)"
  by (induction "is" arbitrary: cl) (simp_all add: inner_loop_def nonempty_inner)

lemma nonempty_cluster_pairs: "nonempty_lists (cluster_pairs similar items)"
  unfolding cluster_pairs_def by (rule nonempty_outer) (simp add: nonempty_lists_def)

lemma takeWhile_until: "c \<notin> set xs \<Longrightarrow> takeWhile (\<lambda>x. x \<noteq> c) (xs @ c # ys) = xs"
  by (induction xs) auto

lemma key_string_inj:
  assumes "key_string k = key_string k'" "colon \<notin> set (snd k)" "colon \<notin> set (snd k')"
  shows "k = k'"
proof -
  have c: "lit ''::'' = [colon, colon]" by (simp add: lit_def colon_def)
  have r: "\<And>q. rev (key_string q) = rev (snd q) @ colon # (colon # rev (fst q))"
    by (simp add: key_string_def c)
  from assms(1) have "rev (key_string k) = rev (key_string k')" by simp
  then have e: "rev (snd k) @ colon # (colon # rev (fst k)) = rev (snd k') @ colon # (colon # rev (fst k'))"
    by (simp only: r)
  then have "takeWhile (\<lambda>x. x \<noteq> colon) (rev (snd k) @ colon # (colon # rev (fst k))) =
             takeWhile (\<lambda>x. x \<noteq> colon) (rev (snd k') @ colon # (colon # rev (fst k')))" by simp
  with assms(2,3) have "rev (snd k) = rev (snd k')" by (simp add: takeWhile_until)
  with e show ?thesis by (simp add: prod_eq_iff)
qed

lemma take_takeWhile_le: "k \<le> length (takeWhile P xs) \<Longrightarrow> take k xs = take k (takeWhile P xs)"
  by (induction xs arbitrary: k) (auto simp: take_Cons split: nat.splits if_splits)

lemma take_run_accepted:
  assumes "k \<le> run a s p" "x \<in> set (slice s p (p + k))"
  shows "accepts a x"
proof -
  from assms(1) have "take k (drop p s) = take k (takeWhile (accepts a) (drop p s))"
    unfolding run_def by (rule take_takeWhile_le)
  then have "set (slice s p (p + k)) \<subseteq> set (takeWhile (accepts a) (drop p s))"
    by (simp add: slice_def) (metis set_take_subset)
  with assms(2) show ?thesis by (auto dest: set_takeWhileD)
qed

lemma group1_no_colon:
  assumes "p2 \<in> set (ends FUNC_RE_group1 s p1)"
  shows "colon \<notin> set (slice s p1 p2)"
proof
  assume c: "colon \<in> set (slice s p1 p2)"
  let ?w = "of_char CHR ''w'' :: nat"
  from assms have p: "p1 < length s" "s ! p1 = backslash" "Suc p1 < p2" "p2 \<le> Suc p1 + run (Chr ?w) s (Suc p1)"
    by (auto simp: FUNC_RE_group1_def split: if_splits)
  then have "slice s p1 p2 = s ! p1 # slice s (p1 + 1) p2" by (intro slice_step) simp_all
  with c p(2) have "colon \<in> set (slice s (Suc p1) p2)" by (simp add: colon_def backslash_def)
  moreover from p(3) have "p2 = Suc p1 + (p2 - Suc p1)" by simp
  ultimately have "colon \<in> set (slice s (Suc p1) (Suc p1 + (p2 - Suc p1)))" by simp
  moreover from p(4) have "p2 - Suc p1 \<le> run (Chr ?w) s (Suc p1)" by simp
  ultimately have "accepts (Chr ?w) colon" by (rule take_run_accepted [rotated])
  then show False by (simp add: colon_def)
qed

lemma finditer_no_colon: "m \<in> set (finditer s pos) \<Longrightarrow> colon \<notin> set (m_group1 m)"
proof (induction s pos rule: finditer.induct)
  case (1 s pos)
  show ?case
  proof (cases "length s < pos")
    case True
    with "1.prems" show ?thesis by simp
  next
    case False
    show ?thesis
    proof (cases "FUNC_RE_match s pos")
      case None
      with False "1.prems" "1.IH"(1) show ?thesis by fastforce
    next
      case (Some m')
      from Some False "1.prems"
      have "m = m' \<or> m \<in> set (finditer s (if pos < m_end m' then m_end m' else pos + 1))" by simp
      then show ?thesis
      proof
        assume "m = m'"
        with Some obtain p1 p2 where "p2 \<in> set (ends FUNC_RE_group1 s p1)" "m_group1 m = slice s p1 p2"
          by (auto elim: FUNC_RE_match_parts)
        then show ?thesis by (simp add: group1_no_colon)
      next
        assume "m \<in> set (finditer s (if pos < m_end m' then m_end m' else pos + 1))"
        with "1.IH"(2) [OF False Some] show ?thesis by simp
      qed
    qed
  qed
qed

lemma extract_functions_no_colon:
  "extract_functions code = Inr fs \<Longrightarrow> (fn_name, body) \<in> set fs \<Longrightarrow> colon \<notin> set fn_name"
  by (auto simp: extract_functions_eq finditer_no_colon simp del: finditer.simps)

lemma good_tokens_update:
  "good_tokens tokens \<Longrightarrow> colon \<notin> set (snd k) \<Longrightarrow> good_tokens (AList.update k v tokens)"
  by (auto simp: good_tokens_def distinct_update dom_update)

lemma good_tokens_add_functions:
  "good_tokens tokens \<Longrightarrow> \<forall>(fn_name, body) \<in> set fs. colon \<notin> set fn_name \<Longrightarrow>
   good_tokens (add_functions hash path fs tokens)"
proof (induction fs arbitrary: tokens)
  case Nil
  then show ?case by simp
next
  case (Cons e fs)
  obtain fn_name body where e: "e = (fn_name, body)" by (cases e)
  with Cons.prems have "good_tokens (AList.update (path, fn_name) (hash body) tokens)"
    by (intro good_tokens_update) auto
  with Cons.IH [of "AList.update (path, fn_name) (hash body) tokens"] Cons.prems(2) e
  show ?case by simp
qed

lemma good_tokens_scan_files:
  "good_tokens tokens \<Longrightarrow> scan_files hash files tokens = Inr tokens' \<Longrightarrow> good_tokens tokens'"
proof (induction hash files tokens rule: scan_files.induct)
  case (1 hash tokens)
  then show ?case by simp
next
  case (2 hash f rest tokens)
  then show ?case by simp
next
  case (3 hash f code rest tokens)
  from "3.prems"(2) obtain fs where fs: "extract_functions code = Inr fs"
    and r: "scan_files hash rest (add_functions hash f fs tokens) = Inr tokens'"
    by (auto split: sum.splits)
  from fs have "\<forall>(fn_name, body) \<in> set fs. colon \<notin> set fn_name"
    by (auto dest: extract_functions_no_colon)
  with "3.prems"(1) have "good_tokens (add_functions hash f fs tokens)"
    by (rule good_tokens_add_functions)
  from "3.IH" [OF fs this r] show ?case .
qed

lemma scan_files_never_raises: "\<exists>tokens'. scan_files hash files tokens = Inr tokens'"
proof (induction hash files tokens rule: scan_files.induct)
  case (3 hash f code rest tokens)
  from extract_functions_eq [of code] obtain fs where fs: "extract_functions code = Inr fs" by blast
  with "3.IH" [OF fs] show ?case by simp
qed simp_all

lemma members_of_iff:
  "k \<in> set (members_of similar items i) \<longleftrightarrow>
     (\<exists>j. i < j \<and> j < length items \<and> 90 < similar (snd (items ! i)) (snd (items ! j)) \<and> k = fst (items ! j))"
  by (auto simp: members_of_def Suc_le_eq)

lemma cluster_list_member_iff:
  "k \<in> set (cluster_list (cluster_pairs similar items) h) \<longleftrightarrow>
     (\<exists>i j. i < j \<and> j < length items \<and> key_string (fst (items ! i)) = h \<and>
            90 < similar (snd (items ! i)) (snd (items ! j)) \<and> k = fst (items ! j))"
  by (auto simp: cluster_list_cluster_pairs members_of_iff split: if_splits)

lemma good_tokens_key_inj:
  assumes "good_tokens items" "i < length items" "j < length items"
    "key_string (fst (items ! i)) = key_string (fst (items ! j))"
  shows "i = j"
proof -
  from assms(1-3) have "colon \<notin> set (snd (fst (items ! i)))" "colon \<notin> set (snd (fst (items ! j)))"
    by (auto simp: good_tokens_def)
  with assms(4) have "fst (items ! i) = fst (items ! j)" by (rule key_string_inj)
  then have e: "map fst items ! i = map fst items ! j" using assms(2,3) by simp
  from assms(1) have d: "distinct (map fst items)" by (simp add: good_tokens_def)
  from nth_eq_iff_index_eq [OF d, of i j] e assms(2,3) show ?thesis by simp
qed

lemma cluster_no_self:
  assumes "good_tokens items"
  shows "k \<notin> set (cluster_list (cluster_pairs similar items) (key_string k))"
proof
  assume "k \<in> set (cluster_list (cluster_pairs similar items) (key_string k))"
  then obtain i j where ij: "i < j" "j < length items"
    "key_string (fst (items ! i)) = key_string k" "k = fst (items ! j)"
    unfolding cluster_list_member_iff by blast
  then have "key_string (fst (items ! i)) = key_string (fst (items ! j))" by simp
  with assms ij(1,2) have "i = j" by (intro good_tokens_key_inj) simp_all
  with ij(1) show False by simp
qed

lemma cluster_pairs_entry:
  assumes "(h, members) \<in> set (cluster_pairs similar items)"
  shows "cluster_list (cluster_pairs similar items) h = members" "members \<noteq> []"
proof -
  from nonempty_cluster_pairs [of similar items]
  have d: "distinct (map fst (cluster_pairs similar items))"
    and n: "[] \<notin> snd ` set (cluster_pairs similar items)"
    by (simp_all add: nonempty_lists_def)
  from d assms have "map_of (cluster_pairs similar items) h = Some members" by simp
  then show "cluster_list (cluster_pairs similar items) h = members" by (simp add: cluster_list_def)
  from n assms show "members \<noteq> []" by force
qed

text \<open>
  Claim C3. For every list of items of a token mapping and every key string \<open>h\<close>, the
  list that the report holds under \<open>h\<close> is, in scan order, the keys \<open>key_j\<close> of exactly
  those pairs \<open>i < j\<close> whose head \<open>key_i\<close> is written \<open>h\<close> and whose score exceeds 90:
  each such pair appends \<open>key_j\<close> once, and a pair scoring 90 or less appends nothing.
  Where the keys are those of a dict built from extracted functions (distinct, no colon in
  a name), \<open>key_j\<close> is in the list under the string of \<open>key_i\<close> exactly when the score
  of the pair exceeds 90.
\<close>

theorem cluster_pairs_threshold:
  "cluster_list (cluster_pairs similar items) h =
     concat (map (\<lambda>i. if key_string (fst (items ! i)) = h
                       then map (\<lambda>j. fst (items ! j))
                              (filter (\<lambda>j. 90 < similar (snd (items ! i)) (snd (items ! j)))
                                 [i + 1 ..< length items])
                       else [])
                 [0 ..< length items]) \<and>
   (good_tokens items \<longrightarrow>
      (\<forall>i j. i < j \<and> j < length items \<longrightarrow>
         (fst (items ! j) \<in> set (cluster_list (cluster_pairs similar items) (key_string (fst (items ! i))))
          \<longleftrightarrow> 90 < similar (snd (items ! i)) (snd (items ! j)))))"
proof (intro conjI impI allI)
  show "cluster_list (cluster_pairs similar items) h =
     concat (map (\<lambda>i. if key_string (fst (items ! i)) = h
                       then map (\<lambda>j. fst (items ! j))
                              (filter (\<lambda>j. 90 < similar (snd (items ! i)) (snd (items ! j)))
                                 [i + 1 ..< length items])
                       else [])
                 [0 ..< length items])"
    by (simp add: cluster_list_cluster_pairs members_of_def cong: if_cong)
next
  fix i j
  assume g: "good_tokens items" and ij: "i < j \<and> j < length items"
  show "fst (items ! j) \<in> set (cluster_list (cluster_pairs similar items) (key_string (fst (items ! i))))
          \<longleftrightarrow> 90 < similar (snd (items ! i)) (snd (items ! j))"
  proof
    assume "fst (items ! j) \<in> set (cluster_list (cluster_pairs similar items) (key_string (fst (items ! i))))"
    then obtain i' j' where p: "i' < j'" "j' < length items"
      "key_string (fst (items ! i')) = key_string (fst (items ! i))"
      "90 < similar (snd (items ! i')) (snd (items ! j'))" "fst (items ! j) = fst (items ! j')"
      unfolding cluster_list_member_iff by blast
    from g p(1,2) ij p(3) have "i' = i" by (intro good_tokens_key_inj) simp_all
    moreover from p(5) have "key_string (fst (items ! j)) = key_string (fst (items ! j'))" by simp
    with g ij p(2) have "j = j'" by (intro good_tokens_key_inj) simp_all
    ultimately show "90 < similar (snd (items ! i)) (snd (items ! j))" using p(4) by simp
  next
    assume "90 < similar (snd (items ! i)) (snd (items ! j))"
    with ij show "fst (items ! j) \<in> set (cluster_list (cluster_pairs similar items) (key_string (fst (items ! i))))"
      unfolding cluster_list_member_iff by blast
  qed
qed

text \<open>
  Claim C10. Every list in the cluster mapping that \<open>main\<close> writes is non-empty, and a
  key string is in the mapping only if some pair \<open>i < j\<close> whose head is written so scored
  above 90; the member \<open>key_j\<close> of that pair is in the list.
\<close>

theorem clusters_nonempty:
  assumes "(h, members) \<in> set (cluster_pairs similar items)"
  shows "members \<noteq> [] \<and>
     (\<exists>i j. i < j \<and> j < length items \<and> key_string (fst (items ! i)) = h \<and>
            90 < similar (snd (items ! i)) (snd (items ! j)) \<and> fst (items ! j) \<in> set members)"
proof -
  from cluster_pairs_entry [OF assms]
  have m: "cluster_list (cluster_pairs similar items) h = members" and n: "members \<noteq> []" .
  from n obtain k where "k \<in> set members" by (cases members) auto
  with m have "k \<in> set (cluster_list (cluster_pairs similar items) h)" by simp
  then obtain i j where "i < j" "j < length items" "key_string (fst (items ! i)) = h"
    "90 < similar (snd (items ! i)) (snd (items ! j))" "k = fst (items ! j)"
    unfolding cluster_list_member_iff by blast
  with \<open>k \<in> set members\<close> n show ?thesis by blast
qed

lemma example_items_good: "good_tokens example_items"
  by (simp add: good_tokens_def example_items_def lit_def colon_def backslash_def)

lemma example_items_clusters:
  "cluster_pairs example_similar example_items =
     [(key_string (fst (example_items ! 0)), [fst (example_items ! 1)])]"
  by code_simp

theorem cluster_pairs_threshold_witness:
  "good_tokens example_items \<and>
   90 < example_similar (snd (example_items ! 0)) (snd (example_items ! 1)) \<and>
   fst (example_items ! 1) \<in>
     set (cluster_list (cluster_pairs example_similar example_items) (key_string (fst (example_items ! 0)))) \<and>
   \<not> 90 < example_similar (snd (example_items ! 0)) (snd (example_items ! 2)) \<and>
   fst (example_items ! 2) \<notin>
     set (cluster_list (cluster_pairs example_similar example_items) (key_string (fst (example_items ! 0))))"
proof -
  have l: "length example_items = 3" by (simp add: example_items_def)
  have s1: "90 < example_similar (snd (example_items ! 0)) (snd (example_items ! 1))"
    by (simp add: example_similar_def example_items_def)
  have s2: "\<not> 90 < example_similar (snd (example_items ! 0)) (snd (example_items ! 2))"
    by (simp add: example_similar_def example_items_def lit_def)
  from cluster_pairs_threshold [of example_similar example_items "[]"] example_items_good
  have "\<forall>i j. i < j \<and> j < length example_items \<longrightarrow>
         (fst (example_items ! j) \<in> set (cluster_list (cluster_pairs example_similar example_items)
              (key_string (fst (example_items ! i))))
          \<longleftrightarrow> 90 < example_similar (snd (example_items ! i)) (snd (example_items ! j)))"
    by blast
  from this [rule_format, of 0 1] this [rule_format, of 0 2] l s1 s2 example_items_good
  show ?thesis by simp
qed

theorem clusters_nonempty_witness:
  "(key_string (fst (example_items ! 0)), [fst (example_items ! 1)]) \<in>
      set (cluster_pairs example_similar example_items) \<and>
   [fst (example_items ! 1)] \<noteq> [] \<and>
   (\<exists>i j. i < j \<and> j < length example_items \<and>
          key_string (fst (example_items ! i)) = key_string (fst (example_items ! 0)) \<and>
          90 < example_similar (snd (example_items ! i)) (snd (example_items ! j)) \<and>
          fst (example_items ! j) \<in> set [fst (example_items ! 1)])"
proof -
  have m: "(key_string (fst (example_items ! 0)), [fst (example_items ! 1)]) \<in>
      set (cluster_pairs example_similar example_items)"
    by (simp add: example_items_clusters)
  from m clusters_nonempty [OF m] show ?thesis by blast
qed

text \<open>
  Claim C7. For the token mapping that \<open>main\<close> builds from any files, with any
  fingerprint function and any comparator, no list of the cluster mapping holds a
  FunctionKey whose key string is the key of that list: no cluster has its own head as a
  member. The keys of a dict are distinct, a member comes behind its head in the scan,
  and two distinct keys are never written as the same string, since a function name that
  \<open>FUNC_RE\<close> captures holds no colon.
\<close>

theorem no_self_member:
  assumes "scan_files hash files [] = Inr tokens"
    and "(h, members) \<in> set (cluster_pairs similar tokens)"
    and "k \<in> set members"
  shows "key_string k \<noteq> h"
proof
  assume e: "key_string k = h"
  have "good_tokens ([] :: (fkey \<times> 'a) list)" by (simp add: good_tokens_def)
  from good_tokens_scan_files [OF this assms(1)] have g: "good_tokens tokens" .
  from cluster_pairs_entry(1) [OF assms(2)] assms(3) e
  have "k \<in> set (cluster_list (cluster_pairs similar tokens) (key_string k))" by simp
  with cluster_no_self [OF g] show False by blast
qed

lemma example_files_tokens: "scan_files hash_fallback example_files [] = Inr example_tokens"
  by (simp add: example_files_def example_tokens_def extract_example_two_spaces hash_fallback_def
      lit_def)

lemma example_tokens_clusters:
  "cluster_pairs example_similar example_tokens =
     [(key_string (lit ''x.zig'', [backslash, of_char CHR ''w'']),
       [(lit ''y.zig'', [backslash, of_char CHR ''w''])])]"
  by code_simp

theorem no_self_member_witness:
  "scan_files hash_fallback example_files [] = Inr example_tokens \<and>
   (key_string (lit ''x.zig'', [backslash, of_char CHR ''w'']),
     [(lit ''y.zig'', [backslash, of_char CHR ''w''])]) \<in> set (cluster_pairs example_similar example_tokens) \<and>
   key_string (lit ''y.zig'', [backslash, of_char CHR ''w'']) \<noteq>
   key_string (lit ''x.zig'', [backslash, of_char CHR ''w''])"
proof -
  have m: "(key_string (lit ''x.zig'', [backslash, of_char CHR ''w'']),
     [(lit ''y.zig'', [backslash, of_char CHR ''w''])]) \<in> set (cluster_pairs example_similar example_tokens)"
    by (simp add: example_tokens_clusters)
  have k: "(lit ''y.zig'', [backslash, of_char CHR ''w'']) \<in> set [(lit ''y.zig'', [backslash, of_char CHR ''w''])]"
    by simp
  from no_self_member [OF example_files_tokens m k] example_files_tokens m show ?thesis by simp
qed

section \<open>Exit paths of \<open>main\<close>\<close>

text \<open>
  Claim C5. When the root path does not exist (\<open>root.exists()\<close> answers \<open>False\<close>),
  \<open>main\<close> prints the error message, which names the path as \<open>str(root)\<close>, to stderr and
  leaves through \<open>sys.exit(1)\<close>. That line is its only event: the tree is not walked, no
  file is read, and no report is written.
\<close>

theorem main_missing_root:
  assumes "path_exists fs (main_root fs argv sys_argv) = Inr False"
  shows "main hash similar argv sys_argv fs =
           (SystemExit 1,
            [Print_stderr (lit ''error: path '' @ main_root fs argv sys_argv @ lit '' does not exist'')])"
  using assms by (simp add: main_def)

theorem main_missing_root_witness:
  "path_exists empty_world (main_root empty_world (Some [lit ''./nowhere'']) []) = Inr False \<and>
   main hash_fallback example_similar (Some [lit ''./nowhere'']) [] empty_world =
     (SystemExit 1, [Print_stderr (lit ''error: path nowhere does not exist'')])"
proof -
  have h: "path_exists empty_world (main_root empty_world (Some [lit ''./nowhere'']) []) = Inr False"
    by (simp add: empty_world_def)
  have r: "main_root empty_world (Some [lit ''./nowhere'']) [] = lit ''nowhere''"
    by (simp add: main_root_def empty_world_def)
  from main_missing_root [OF h, of hash_fallback example_similar, unfolded r] h show ?thesis
    by (simp add: lit_def)
qed

text \<open>
  The other exits. An exception of \<open>exists\<close> is not caught. When the root exists, every
  read answers, the walk ends without an exception and the report can be written, \<open>main\<close>
  returns, and its last two events are the writing of the report and the summary line.
\<close>

lemma main_exists_raises:
  assumes "path_exists fs (main_root fs argv sys_argv) = Inl e"
  shows "main hash similar argv sys_argv fs = (Raised e, [])"
  using assms by (simp add: main_def)

lemma main_existing_root:
  assumes "path_exists fs (main_root fs argv sys_argv) = Inr True"
    and "rglob_zig fs (main_root fs argv sys_argv) = (yielded, None)"
    and "\<forall>p \<in> set (iter_zig_files yielded). read_text fs (path_str p) \<noteq> Os_error"
    and "write_text_ok fs (lit ''function_dupes.json'')"
  shows "\<exists>tokens walked. main hash similar argv sys_argv fs =
           (Returned, walked @ [Write_text (lit ''function_dupes.json'') (cluster_pairs similar tokens),
                                Print_summary (lit ''function_dupes.json'') (length (cluster_pairs similar tokens))])"
proof -
  let ?paths = "map path_str (iter_zig_files yielded)"
  let ?results = "map (\<lambda>p. (p, read_text fs p)) ?paths"
  from assms(3) have "\<forall>x \<in> set ?results. (\<lambda>(p, r). r \<noteq> Os_error) x" by auto
  then have tw: "takeWhile (\<lambda>(p, r). r \<noteq> Os_error) ?results = ?results"
    by (simp only: takeWhile_eq_all_conv)
  from scan_files_never_raises [of hash "map (\<lambda>(p, r). (p, decoded r)) ?results" "[]"] obtain tokens
    where s: "scan_files hash (map (\<lambda>(p, r). (p, decoded r)) ?results) [] = Inr tokens" by blast
  have "main hash similar argv sys_argv fs =
      (Returned, (Rglob (main_root fs argv sys_argv) # map Read_text ?paths) @
         [Write_text (lit ''function_dupes.json'') (cluster_pairs similar tokens),
          Print_summary (lit ''function_dupes.json'') (length (cluster_pairs similar tokens))])"
    unfolding main_def Let_def assms(1,2) fst_conv snd_conv tw s using assms(4) by simp
  then show ?thesis by blast
qed

lemma main_example_world:
  "main hash_fallback example_similar None [] example_world =
     (Returned,
      [Rglob (lit ''src''), Read_text (lit ''x.zig''), Read_text (lit ''bad.zig''), Read_text (lit ''y.zig''),
       Write_text (lit ''function_dupes.json'')
         [(key_string (lit ''x.zig'', [backslash, of_char CHR ''w'']),
           [(lit ''y.zig'', [backslash, of_char CHR ''w''])])],
       Print_summary (lit ''function_dupes.json'') 1])"
proof -
  have r: "main_root example_world None [] = lit ''src''"
    by (simp add: main_root_def example_world_def)
  have e: "path_exists example_world (lit ''src'') = Inr True" by (simp add: example_world_def)
  have g: "rglob_zig example_world (lit ''src'') =
      ([\<lparr>path_str = lit ''x.zig'', path_parts = [lit ''x.zig'']\<rparr>,
        \<lparr>path_str = lit ''zig-out/o.zig'', path_parts = [lit ''zig-out'', lit ''o.zig'']\<rparr>,
        \<lparr>path_str = lit ''bad.zig'', path_parts = [lit ''bad.zig'']\<rparr>,
        \<lparr>path_str = lit ''y.zig'', path_parts = [lit ''y.zig'']\<rparr>], None)"
    by (simp add: example_world_def)
  have i: "map path_str (iter_zig_files
      [\<lparr>path_str = lit ''x.zig'', path_parts = [lit ''x.zig'']\<rparr>,
       \<lparr>path_str = lit ''zig-out/o.zig'', path_parts = [lit ''zig-out'', lit ''o.zig'']\<rparr>,
       \<lparr>path_str = lit ''bad.zig'', path_parts = [lit ''bad.zig'']\<rparr>,
       \<lparr>path_str = lit ''y.zig'', path_parts = [lit ''y.zig'']\<rparr>]) =
      [lit ''x.zig'', lit ''bad.zig'', lit ''y.zig'']"
    by (simp add: iter_zig_files_def lit_def)
  have m: "map (\<lambda>p. (p, read_text example_world p)) [lit ''x.zig'', lit ''bad.zig'', lit ''y.zig''] =
      [(lit ''x.zig'', Text example_two_spaces), (lit ''bad.zig'', Decode_error),
       (lit ''y.zig'', Text example_two_spaces)]"
    by (simp add: example_world_def lit_def)
  have tw: "takeWhile (\<lambda>(p, r). r \<noteq> Os_error)
      [(lit ''x.zig'', Text example_two_spaces), (lit ''bad.zig'', Decode_error),
       (lit ''y.zig'', Text example_two_spaces)] =
      [(lit ''x.zig'', Text example_two_spaces), (lit ''bad.zig'', Decode_error),
       (lit ''y.zig'', Text example_two_spaces)]"
    by simp
  have d: "map (\<lambda>(p, r). (p, decoded r))
      [(lit ''x.zig'', Text example_two_spaces), (lit ''bad.zig'', Decode_error),
       (lit ''y.zig'', Text example_two_spaces)] = example_files"
    by (simp add: decoded_def example_files_def)
  have w: "write_text_ok example_world (lit ''function_dupes.json'')" by (simp add: example_world_def)
  show ?thesis
    unfolding main_def Let_def r e g fst_conv snd_conv i m tw d example_files_tokens
    using w by (simp add: example_tokens_clusters)
qed

text \<open>A read that raises \<open>OSError\<close> ends the run: nothing is written.\<close>

lemma main_read_raises:
  assumes "path_exists fs (main_root fs argv sys_argv) = Inr True"
    and "p \<in> set (iter_zig_files (fst (rglob_zig fs (main_root fs argv sys_argv))))"
    and "read_text fs (path_str p) = Os_error"
  shows "fst (main hash similar argv sys_argv fs) = Raised OSError"
proof -
  let ?paths = "map path_str (iter_zig_files (fst (rglob_zig fs (main_root fs argv sys_argv))))"
  let ?results = "map (\<lambda>p. (p, read_text fs p)) ?paths"
  from assms(2,3) have "(path_str p, Os_error) \<in> set ?results" by force
  then have "\<not> (\<forall>x \<in> set ?results. (\<lambda>(p, r). r \<noteq> Os_error) x)" by force
  then have "takeWhile (\<lambda>(p, r). r \<noteq> Os_error) ?results \<noteq> ?results"
    by (simp only: takeWhile_eq_all_conv) simp
  then have "dropWhile (\<lambda>(p, r). r \<noteq> Os_error) ?results \<noteq> []"
    by (metis append_Nil2 takeWhile_dropWhile_id)
  then have "0 < length (dropWhile (\<lambda>(p, r). r \<noteq> Os_error) ?results)" by simp
  moreover have "length (takeWhile (\<lambda>(p, r). r \<noteq> Os_error) ?results) +
      length (dropWhile (\<lambda>(p, r). r \<noteq> Os_error) ?results) = length ?results"
    by (metis length_append takeWhile_dropWhile_id)
  ultimately have "length (takeWhile (\<lambda>(p, r). r \<noteq> Os_error) ?results) < length ?results"
    by linarith
  then show ?thesis
    unfolding main_def Let_def assms(1) by simp
qed

section \<open>The fallback Similarity Comparator\<close>

text \<open>
  Without \<open>ssdeep\<close> the script compares with
  \<^verbatim>\<open>int(SequenceMatcher(None, a, b).ratio() * 100)\<close>.
  \<open>SequenceMatcher\<close> is \<open>difflib\<close> of Python's standard library; the definitions of this
  section follow \<open>Lib/difflib.py\<close> of CPython, for \<open>isjunk = None\<close> and the default
  \<open>autojunk = True\<close>.

  \<open>__chain_b\<close>: \<open>b2j\<close> maps an element to the increasing list of the indices at which it
  stands in \<open>b\<close>. For \<open>len(b) \<ge> 200\<close>, an element that stands at more than
  \<open>len(b) // 100 + 1\<close> indices is popular and is deleted from \<open>b2j\<close>; looking it up
  then gives the empty list, as for an element that is not in \<open>b\<close>. With
  \<open>isjunk = None\<close> the set \<open>bjunk\<close> is empty.
\<close>

definition b2j :: "'a list \<Rightarrow> 'a \<Rightarrow> nat list" where
  "b2j b elt =
     (let idxs = filter (\<lambda>i. b ! i = elt) [0 ..< length b]
      in if 200 \<le> length b \<and> length b div 100 + 1 < length idxs then [] else idxs)"

definition isbjunk :: "'a \<Rightarrow> bool" where
  "isbjunk elt = False"

text \<open>
  \<open>find_longest_match\<close>, first loop. \<open>j2len\<close> and \<open>newj2len\<close> are dicts from indices to
  lengths; \<open>j2lenget(j - 1, 0)\<close> is 0 for an absent key, and for \<open>j = 0\<close>, where the key
  is \<open>-1\<close>. The inner loop runs over \<open>b2j.get(a[i], nothing)\<close>, skips indices below
  \<open>blo\<close> and stops at the first index that is not below \<open>bhi\<close>.
\<close>

definition j2lenget :: "(nat \<rightharpoonup> nat) \<Rightarrow> nat \<Rightarrow> nat" where
  "j2lenget j2len j = (if j = 0 then 0 else case j2len (j - 1) of None \<Rightarrow> 0 | Some k \<Rightarrow> k)"

fun flm_inner :: "nat \<Rightarrow> nat \<Rightarrow> nat \<Rightarrow> (nat \<rightharpoonup> nat) \<Rightarrow> nat list \<Rightarrow>
    (nat \<rightharpoonup> nat) \<times> nat \<times> nat \<times> nat \<Rightarrow> (nat \<rightharpoonup> nat) \<times> nat \<times> nat \<times> nat" where
  "flm_inner i blo bhi j2len [] st = st"
| "flm_inner i blo bhi j2len (j # js) (newj2len, besti, bestj, bestsize) =
     (if j < blo then flm_inner i blo bhi j2len js (newj2len, besti, bestj, bestsize)
      else if bhi \<le> j then (newj2len, besti, bestj, bestsize)
      else (let k = j2lenget j2len j + 1
            in if bestsize < k
               then flm_inner i blo bhi j2len js (newj2len(j \<mapsto> k), i + 1 - k, j + 1 - k, k)
               else flm_inner i blo bhi j2len js (newj2len(j \<mapsto> k), besti, bestj, bestsize)))"

definition flm_row :: "'a list \<Rightarrow> 'a list \<Rightarrow> nat \<Rightarrow> nat \<Rightarrow> nat \<Rightarrow>
    (nat \<rightharpoonup> nat) \<times> nat \<times> nat \<times> nat \<Rightarrow> (nat \<rightharpoonup> nat) \<times> nat \<times> nat \<times> nat" where
  "flm_row a b blo bhi i st =
     (case st of (j2len, besti, bestj, bestsize) \<Rightarrow>
        flm_inner i blo bhi j2len (b2j b (a ! i)) (Map.empty, besti, bestj, bestsize))"

text \<open>
  The four \<open>while\<close> loops that extend the best match: backwards and forwards over
  elements that are not junk, then backwards and forwards over junk. \<open>junk\<close> says which
  of the two the loop asks of \<open>isbjunk\<close>.
\<close>

function extend_back :: "'a list \<Rightarrow> 'a list \<Rightarrow> nat \<Rightarrow> nat \<Rightarrow> bool \<Rightarrow> nat \<times> nat \<times> nat \<Rightarrow> nat \<times> nat \<times> nat" where
  "extend_back a b alo blo junk (besti, bestj, bestsize) =
     (if alo < besti \<and> blo < bestj \<and> isbjunk (b ! (bestj - 1)) = junk \<and>
         a ! (besti - 1) = b ! (bestj - 1)
      then extend_back a b alo blo junk (besti - 1, bestj - 1, bestsize + 1)
      else (besti, bestj, bestsize))"
  by pat_completeness auto
termination
  by (relation "measure (\<lambda>(a, b, alo, blo, junk, besti, bestj, bestsize). besti)") auto

function extend_forward :: "'a list \<Rightarrow> 'a list \<Rightarrow> nat \<Rightarrow> nat \<Rightarrow> bool \<Rightarrow> nat \<times> nat \<times> nat \<Rightarrow> nat \<times> nat \<times> nat" where
  "extend_forward a b ahi bhi junk (besti, bestj, bestsize) =
     (if besti + bestsize < ahi \<and> bestj + bestsize < bhi \<and> isbjunk (b ! (bestj + bestsize)) = junk \<and>
         a ! (besti + bestsize) = b ! (bestj + bestsize)
      then extend_forward a b ahi bhi junk (besti, bestj, bestsize + 1)
      else (besti, bestj, bestsize))"
  by pat_completeness auto
termination
  by (relation "measure (\<lambda>(a, b, ahi, bhi, junk, besti, bestj, bestsize). ahi - (besti + bestsize))") auto

definition find_longest_match :: "'a list \<Rightarrow> 'a list \<Rightarrow> nat \<Rightarrow> nat \<Rightarrow> nat \<Rightarrow> nat \<Rightarrow> nat \<times> nat \<times> nat" where
  "find_longest_match a b alo ahi blo bhi =
     (case fold (flm_row a b blo bhi) [alo ..< ahi] (Map.empty, alo, blo, 0) of
        (j2len, best) \<Rightarrow>
          extend_forward a b ahi bhi True
            (extend_back a b alo blo True
               (extend_forward a b ahi bhi False
                  (extend_back a b alo blo False best))))"

declare extend_back.simps [simp del]

declare extend_forward.simps [simp del]

text \<open>
  What \<open>find_longest_match\<close> returns lies inside the two ranges it is given: this is the
  fact that makes the loop of \<open>get_matching_blocks\<close> end. \<open>best_ok\<close> and \<open>j2len_ok\<close> are
  the invariants of its loops.
\<close>

definition best_ok :: "nat \<Rightarrow> nat \<Rightarrow> nat \<Rightarrow> nat \<Rightarrow> nat \<times> nat \<times> nat \<Rightarrow> bool" where
  "best_ok alo ahi blo bhi best =
     (case best of (i, j, k) \<Rightarrow>
        alo \<le> i \<and> blo \<le> j \<and> (if k = 0 then i = alo \<and> j = blo else i + k \<le> ahi \<and> j + k \<le> bhi))"

definition j2len_ok :: "nat \<Rightarrow> nat \<Rightarrow> nat \<Rightarrow> (nat \<rightharpoonup> nat) \<Rightarrow> bool" where
  "j2len_ok alo blo i j2len =
     (\<forall>j k. j2len j = Some k \<longrightarrow> k \<le> i - alo \<and> k \<le> j + 1 - blo \<and> blo \<le> j)"

lemma j2lenget_ok:
  assumes "j2len_ok alo blo i j2len" "blo \<le> j" "alo \<le> i"
  shows "j2lenget j2len j + 1 \<le> i + 1 - alo \<and> j2lenget j2len j + 1 \<le> j + 1 - blo"
proof (cases "j = 0 \<or> j2len (j - 1) = None")
  case True
  with assms(2,3) show ?thesis by (auto simp: j2lenget_def)
next
  case False
  then obtain k where k: "j2len (j - 1) = Some k" "j \<noteq> 0" by auto
  with assms(1) have "k \<le> i - alo" "k \<le> (j - 1) + 1 - blo" "blo \<le> j - 1"
    unfolding j2len_ok_def by blast+
  with k assms(3) show ?thesis by (simp add: j2lenget_def) arith
qed

lemma flm_inner_ok:
  assumes "j2len_ok alo blo i j2len" "alo \<le> i" "i < ahi"
    "j2len_ok alo blo (i + 1) newj2len" "best_ok alo ahi blo bhi best"
    "flm_inner i blo bhi j2len js (newj2len, best) = (newj2len', best')"
  shows "j2len_ok alo blo (i + 1) newj2len' \<and> best_ok alo ahi blo bhi best'"
  using assms(4-6)
proof (induction js arbitrary: newj2len best)
  case Nil
  then show ?case by simp
next
  case (Cons j js)
  obtain besti bestj bestsize where b: "best = (besti, bestj, bestsize)" by (cases best)
  show ?case
  proof (cases "j < blo")
    case True
    with Cons b show ?thesis by simp
  next
    case nlo: False
    show ?thesis
    proof (cases "bhi \<le> j")
      case True
      with nlo Cons.prems b show ?thesis by simp
    next
      case False
      let ?k = "j2lenget j2len j + 1"
      from nlo have "blo \<le> j" by simp
      from j2lenget_ok [OF assms(1) this assms(2)] have k: "?k \<le> i + 1 - alo" "?k \<le> j + 1 - blo" by simp_all
      have new: "j2len_ok alo blo (i + 1) (newj2len(j \<mapsto> ?k))"
        using Cons.prems(1) k \<open>blo \<le> j\<close> unfolding j2len_ok_def by auto
      show ?thesis
      proof (cases "bestsize < ?k")
        case True
        have "best_ok alo ahi blo bhi (i + 1 - ?k, j + 1 - ?k, ?k)"
          using k assms(2,3) False \<open>blo \<le> j\<close> by (auto simp: best_ok_def)
        moreover have "flm_inner i blo bhi j2len (j # js) (newj2len, best) =
            flm_inner i blo bhi j2len js (newj2len(j \<mapsto> ?k), i + 1 - ?k, j + 1 - ?k, ?k)"
          using b nlo False True by (simp add: Let_def)
        with Cons.prems(3) have "flm_inner i blo bhi j2len js
            (newj2len(j \<mapsto> ?k), i + 1 - ?k, j + 1 - ?k, ?k) = (newj2len', best')" by simp
        ultimately show ?thesis using new by (intro Cons.IH)
      next
        case nb: False
        have "flm_inner i blo bhi j2len (j # js) (newj2len, best) =
            flm_inner i blo bhi j2len js (newj2len(j \<mapsto> ?k), best)"
          using b nlo False nb by (simp add: Let_def)
        with Cons.prems(3) have "flm_inner i blo bhi j2len js (newj2len(j \<mapsto> ?k), best) =
            (newj2len', best')" by simp
        with new Cons.prems(2) show ?thesis by (intro Cons.IH)
      qed
    qed
  qed
qed


lemma flm_rows_ok:
  assumes "fold (flm_row a b blo bhi) [i ..< ahi] (j2len, best) = (j2len', best')"
    "j2len_ok alo blo i j2len" "best_ok alo ahi blo bhi best" "alo \<le> i"
  shows "best_ok alo ahi blo bhi best'"
  using assms
proof (induction "ahi - i" arbitrary: i j2len best)
  case 0
  then show ?case by simp
next
  case (Suc n)
  then have lt: "i < ahi" by simp
  obtain newj2len best1 where r: "flm_row a b blo bhi i (j2len, best) = (newj2len, best1)"
    by (cases "flm_row a b blo bhi i (j2len, best)")
  obtain besti bestj bestsize where b: "best = (besti, bestj, bestsize)" by (cases best)
  from r b have e: "flm_inner i blo bhi j2len (b2j b (a ! i)) (Map.empty, best) = (newj2len, best1)"
    by (simp add: flm_row_def)
  have m: "j2len_ok alo blo (i + 1) Map.empty" by (simp add: j2len_ok_def)
  from flm_inner_ok [OF Suc.prems(2) Suc.prems(4) lt m Suc.prems(3) e]
  have ok: "j2len_ok alo blo (i + 1) newj2len" "best_ok alo ahi blo bhi best1" by simp_all
  from lt have "[i ..< ahi] = i # [i + 1 ..< ahi]" by (simp add: upt_conv_Cons)
  with Suc.prems(1) r have f: "fold (flm_row a b blo bhi) [i + 1 ..< ahi] (newj2len, best1) = (j2len', best')"
    by simp
  from Suc.hyps(2) have n: "n = ahi - (i + 1)" by simp
  from Suc.prems(4) have "alo \<le> i + 1" by simp
  from Suc.hyps(1) [OF n f ok this] show ?case .
qed

lemma extend_back_ok:
  "best_ok alo ahi blo bhi best \<Longrightarrow> best_ok alo ahi blo bhi (extend_back a b alo blo junk best)"
proof (induction a b alo blo junk best rule: extend_back.induct)
  case (1 a b alo blo junk besti bestj bestsize)
  show ?case
  proof (cases "alo < besti \<and> blo < bestj \<and> isbjunk (b ! (bestj - 1)) = junk \<and>
         a ! (besti - 1) = b ! (bestj - 1)")
    case True
    with "1.prems" have "best_ok alo ahi blo bhi (besti - 1, bestj - 1, bestsize + 1)"
      by (auto simp: best_ok_def split: if_splits)
    from "1.IH" [OF True this] True show ?thesis
      by (subst extend_back.simps) simp
  next
    case False
    with "1.prems" show ?thesis by (subst extend_back.simps) auto
  qed
qed

lemma extend_forward_ok:
  "best_ok alo ahi blo bhi best \<Longrightarrow> best_ok alo ahi blo bhi (extend_forward a b ahi bhi junk best)"
proof (induction a b ahi bhi junk best rule: extend_forward.induct)
  case (1 a b ahi bhi junk besti bestj bestsize)
  show ?case
  proof (cases "besti + bestsize < ahi \<and> bestj + bestsize < bhi \<and> isbjunk (b ! (bestj + bestsize)) = junk \<and>
         a ! (besti + bestsize) = b ! (bestj + bestsize)")
    case True
    with "1.prems" have "best_ok alo ahi blo bhi (besti, bestj, bestsize + 1)"
      by (auto simp: best_ok_def split: if_splits)
    from "1.IH" [OF True this] True show ?thesis
      by (subst extend_forward.simps) simp
  next
    case False
    with "1.prems" show ?thesis by (subst extend_forward.simps) auto
  qed
qed

lemma find_longest_match_ok: "best_ok alo ahi blo bhi (find_longest_match a b alo ahi blo bhi)"
proof -
  obtain j2len best where f: "fold (flm_row a b blo bhi) [alo ..< ahi] (Map.empty, alo, blo, 0) = (j2len, best)"
    by (cases "fold (flm_row a b blo bhi) [alo ..< ahi] (Map.empty, alo, blo, 0)")
  have "best_ok alo ahi blo bhi best"
    by (rule flm_rows_ok [OF f]) (simp_all add: j2len_ok_def best_ok_def)
  then show ?thesis
    by (simp add: find_longest_match_def f extend_back_ok extend_forward_ok)
qed

lemma find_longest_match_bounds:
  assumes "find_longest_match a b alo ahi blo bhi = (i, j, k)"
  shows "alo \<le> i" "blo \<le> j" "k \<noteq> 0 \<Longrightarrow> i + k \<le> ahi" "k \<noteq> 0 \<Longrightarrow> j + k \<le> bhi"
    "k = 0 \<Longrightarrow> i = alo \<and> j = blo"
  using find_longest_match_ok [of alo ahi blo bhi a b] assms
  by (auto simp: best_ok_def split: if_splits)


text \<open>
  The loop of \<open>get_matching_blocks\<close>. \<open>queue\<close> is a Python list used as a stack:
  \<open>queue.pop()\<close> takes the element appended last, which is the head of the list here.
\<close>

function matching_loop :: "'a list \<Rightarrow> 'a list \<Rightarrow> (nat \<times> nat \<times> nat \<times> nat) list \<Rightarrow> (nat \<times> nat \<times> nat) list \<Rightarrow> (nat \<times> nat \<times> nat) list" where
  "matching_loop a b [] matching_blocks = matching_blocks"
| "matching_loop a b ((alo, ahi, blo, bhi) # queue) matching_blocks =
     (case find_longest_match a b alo ahi blo bhi of
        (i, j, k) \<Rightarrow>
          if k \<noteq> 0 then
            matching_loop a b
              ((if i + k < ahi \<and> j + k < bhi then [(i + k, ahi, j + k, bhi)] else []) @
               (if alo < i \<and> blo < j then [(alo, i, blo, j)] else []) @ queue)
              (matching_blocks @ [(i, j, k)])
          else matching_loop a b queue matching_blocks)"
  by pat_completeness auto
termination
proof (relation "measure (\<lambda>(a, b, queue, matching_blocks).
         sum_list (map (\<lambda>(alo, ahi, blo, bhi). 2 * (ahi - alo) + 1) queue))")
  show "wf (measure (\<lambda>(a, b, queue, matching_blocks).
         sum_list (map (\<lambda>(alo, ahi, blo, bhi). 2 * (ahi - alo) + 1) queue)))" by simp
next
  fix a b :: "'a list" and alo ahi blo bhi :: nat and queue :: "(nat \<times> nat \<times> nat \<times> nat) list"
    and matching_blocks :: "(nat \<times> nat \<times> nat) list" and x y xa ya
  assume f: "(x, y) = find_longest_match a b alo ahi blo bhi" and x: "(xa, ya) = y" and k: "ya \<noteq> 0"
  then have "find_longest_match a b alo ahi blo bhi = (x, xa, ya)" by simp
  from find_longest_match_bounds(1,3) [OF this] k have "alo \<le> x" "x + ya \<le> ahi" by simp_all
  with k show "((a, b,
          (if x + ya < ahi \<and> xa + ya < bhi then [(x + ya, ahi, xa + ya, bhi)] else []) @
          (if alo < x \<and> blo < xa then [(alo, x, blo, xa)] else []) @ queue,
          matching_blocks @ [(x, xa, ya)]),
         a, b, (alo, ahi, blo, bhi) # queue, matching_blocks)
        \<in> measure (\<lambda>(a, b, queue, matching_blocks).
              sum_list (map (\<lambda>(alo, ahi, blo, bhi). 2 * (ahi - alo) + 1) queue))"
    by auto
next
  fix a b :: "'a list" and alo ahi blo bhi :: nat and queue :: "(nat \<times> nat \<times> nat \<times> nat) list"
    and matching_blocks :: "(nat \<times> nat \<times> nat) list"
  show "((a, b, queue, matching_blocks), a, b, (alo, ahi, blo, bhi) # queue, matching_blocks)
        \<in> measure (\<lambda>(a, b, queue, matching_blocks).
              sum_list (map (\<lambda>(alo, ahi, blo, bhi). 2 * (ahi - alo) + 1) queue))"
    by simp
qed

declare matching_loop.simps [simp del]

text \<open>
  The rest of \<open>get_matching_blocks\<close>: the blocks are sorted (as tuples), adjacent blocks
  are joined, and the sentinel \<open>(la, lb, 0)\<close> is appended.
\<close>

definition adjacent_step :: "nat \<times> nat \<times> nat \<Rightarrow> (nat \<times> nat \<times> nat) \<times> (nat \<times> nat \<times> nat) list \<Rightarrow>
    (nat \<times> nat \<times> nat) \<times> (nat \<times> nat \<times> nat) list" where
  "adjacent_step blk st =
     (case blk of (i2, j2, k2) \<Rightarrow>
      case st of ((i1, j1, k1), non_adjacent) \<Rightarrow>
        if i1 + k1 = i2 \<and> j1 + k1 = j2 then ((i1, j1, k1 + k2), non_adjacent)
        else ((i2, j2, k2), if k1 \<noteq> 0 then non_adjacent @ [(i1, j1, k1)] else non_adjacent))"

definition get_matching_blocks :: "'a list \<Rightarrow> 'a list \<Rightarrow> (nat \<times> nat \<times> nat) list" where
  "get_matching_blocks a b =
     (case fold adjacent_step (sort (matching_loop a b [(0, length a, 0, length b)] [])) ((0, 0, 0), []) of
        ((i1, j1, k1), non_adjacent) \<Rightarrow>
          (if k1 \<noteq> 0 then non_adjacent @ [(i1, j1, k1)] else non_adjacent) @ [(length a, length b, 0)])"

text \<open>
  \<open>ratio\<close>: \<^verbatim>\<open>matches = sum(triple[-1] for triple in self.get_matching_blocks())\<close> and
  \<^verbatim>\<open>_calculate_ratio(matches, len(a) + len(b))\<close>, which is
  \<^verbatim>\<open>2.0 * matches / length\<close> if \<open>length\<close> is not 0 and \<open>1.0\<close> otherwise.
\<close>

definition matches :: "'a list \<Rightarrow> 'a list \<Rightarrow> nat" where
  "matches a b = sum_list (map (\<lambda>(i, j, k). k) (get_matching_blocks a b))"

text \<open>
  Python's \<open>float\<close> is IEEE 754 binary64. Each operation gives the exact result rounded to
  the nearest number with a significand of 53 bits, ties going to the even significand.
  \<open>binary64 x\<close> is that rounding of the real number \<open>x\<close>; the exponent is not bounded
  here, which agrees with binary64 between \<open>2 ^ -1022\<close> and \<open>2 ^ 1024\<close>, and every value
  that arises from two strings (lengths, 100, and ratios of lengths) lies in that range.
\<close>

definition round_half_even :: "real \<Rightarrow> int" where
  "round_half_even x =
     (if x - of_int \<lfloor>x\<rfloor> < 1 / 2 then \<lfloor>x\<rfloor>
      else if 1 / 2 < x - of_int \<lfloor>x\<rfloor> then \<lfloor>x\<rfloor> + 1
      else if even \<lfloor>x\<rfloor> then \<lfloor>x\<rfloor> else \<lfloor>x\<rfloor> + 1)"

definition ulp :: "real \<Rightarrow> real" where
  "ulp x = 2 powr of_int (\<lfloor>log 2 \<bar>x\<bar>\<rfloor> - 52)"

definition binary64 :: "real \<Rightarrow> real" where
  "binary64 x = (if x = 0 then 0 else of_int (round_half_even (x / ulp x)) * ulp x)"

definition calculate_ratio :: "nat \<Rightarrow> nat \<Rightarrow> real" where
  "calculate_ratio m n =
     (if n \<noteq> 0 then binary64 (binary64 (2 * binary64 (of_nat m)) / binary64 (of_nat n)) else 1)"

definition ratio :: "'a list \<Rightarrow> 'a list \<Rightarrow> real" where
  "ratio a b = calculate_ratio (matches a b) (length a + length b)"

text \<open>\<open>int(x)\<close> of a float truncates towards zero.\<close>

definition int_of_float :: "real \<Rightarrow> int" where
  "int_of_float x = (if 0 \<le> x then \<lfloor>x\<rfloor> else \<lceil>x\<rceil>)"

text \<open>The fallback \<open>_similar\<close>: \<^verbatim>\<open>int(SequenceMatcher(None, a, b).ratio() * 100)\<close>.\<close>

definition similar_fallback :: "'a list \<Rightarrow> 'a list \<Rightarrow> int" where
  "similar_fallback a b = int_of_float (binary64 (ratio a b * 100))"

section \<open>Rounding to binary64\<close>

lemma round_half_even_int [simp]: "round_half_even (of_int n) = n"
  by (simp add: round_half_even_def)

lemma round_half_even_bounds: "\<lfloor>x\<rfloor> \<le> round_half_even x" "round_half_even x \<le> \<lfloor>x\<rfloor> + 1"
  by (simp_all add: round_half_even_def)

lemma round_half_even_mono:
  assumes "x \<le> y"
  shows "round_half_even x \<le> round_half_even y"
proof (cases "\<lfloor>x\<rfloor> = \<lfloor>y\<rfloor>")
  case True
  with assms have "x - of_int \<lfloor>x\<rfloor> \<le> y - of_int \<lfloor>y\<rfloor>" by simp
  with True show ?thesis by (auto simp: round_half_even_def)
next
  case False
  with assms have "\<lfloor>x\<rfloor> < \<lfloor>y\<rfloor>" by (simp add: floor_mono order.strict_iff_order)
  with round_half_even_bounds(2) [of x] round_half_even_bounds(1) [of y] show ?thesis by linarith
qed

lemma ulp_pos [simp]: "0 < ulp x"
  by (simp add: ulp_def)

lemma expo_bounds:
  assumes "0 < x"
  shows "2 powr of_int \<lfloor>log 2 x\<rfloor> \<le> x" "x < 2 powr (of_int \<lfloor>log 2 x\<rfloor> + 1)"
  using floor_log_eq_powr_iff [of x 2 "\<lfloor>log 2 x\<rfloor>"] assms by simp_all

lemma expo_eqI:
  assumes "2 powr of_int k \<le> x" "x < 2 powr (of_int k + 1)"
  shows "\<lfloor>log 2 x\<rfloor> = k"
proof -
  have "0 < (2::real) powr of_int k" by simp
  with assms(1) have "0 < x" by linarith
  with floor_log_eq_powr_iff [of x 2 k] assms show ?thesis by simp
qed

lemma scaled_bounds:
  assumes "0 < x"
  shows "2 ^ 52 \<le> x / ulp x" "x / ulp x < 2 ^ 53"
proof -
  let ?l = "\<lfloor>log 2 x\<rfloor>"
  have u: "ulp x = 2 powr of_int ?l / 2 ^ 52"
    using assms by (simp add: ulp_def powr_diff powr_realpow [symmetric])
  from expo_bounds [OF assms] have "2 powr of_int ?l \<le> x" "x < 2 * 2 powr of_int ?l"
    by (simp_all add: powr_add)
  moreover have "0 < (2::real) powr of_int ?l" by simp
  ultimately show "2 ^ 52 \<le> x / ulp x" "x / ulp x < 2 ^ 53"
    unfolding u by (simp_all add: field_simps)
qed


lemma binary64_range:
  assumes "0 < x"
  shows "2 powr of_int \<lfloor>log 2 x\<rfloor> \<le> binary64 x" "binary64 x \<le> 2 powr (of_int \<lfloor>log 2 x\<rfloor> + 1)"
proof -
  let ?l = "\<lfloor>log 2 x\<rfloor>"
  have u: "ulp x = 2 powr of_int ?l / 2 ^ 52"
    using assms by (simp add: ulp_def powr_diff powr_realpow [symmetric])
  from scaled_bounds [OF assms] have s: "(of_int (2 ^ 52) :: real) \<le> x / ulp x" "x / ulp x \<le> of_int (2 ^ 53)"
    by simp_all
  have "round_half_even (of_int (2 ^ 52)) \<le> round_half_even (x / ulp x)"
    using s(1) by (rule round_half_even_mono)
  moreover have "round_half_even (x / ulp x) \<le> round_half_even (of_int (2 ^ 53))"
    using s(2) by (rule round_half_even_mono)
  ultimately have r: "2 ^ 52 \<le> round_half_even (x / ulp x)" "round_half_even (x / ulp x) \<le> 2 ^ 53"
    by (simp_all only: round_half_even_int)
  then have "(2 ^ 52 :: real) \<le> of_int (round_half_even (x / ulp x))"
    "of_int (round_half_even (x / ulp x)) \<le> (2 ^ 53 :: real)"
    by (metis of_int_le_iff of_int_numeral of_int_power)+
  moreover have "0 < (2::real) powr of_int ?l" by simp
  ultimately show "2 powr of_int ?l \<le> binary64 x" "binary64 x \<le> 2 powr (of_int ?l + 1)"
    using assms unfolding binary64_def u by (simp_all add: field_simps powr_add)
qed

lemma binary64_zero [simp]: "binary64 0 = 0"
  by (simp add: binary64_def)

lemma binary64_pos: "0 < x \<Longrightarrow> 0 < binary64 x"
proof -
  assume "0 < x"
  from binary64_range(1) [OF this] have "2 powr of_int \<lfloor>log 2 x\<rfloor> \<le> binary64 x" .
  moreover have "0 < (2::real) powr of_int \<lfloor>log 2 x\<rfloor>" by simp
  ultimately show ?thesis by linarith
qed

lemma binary64_mono:
  assumes "0 \<le> x" "x \<le> y"
  shows "binary64 x \<le> binary64 y"
proof (cases "x = 0")
  case True
  show ?thesis
  proof (cases "y = 0")
    case True with \<open>x = 0\<close> show ?thesis by simp
  next
    case False
    with assms have "0 < y" by simp
    from binary64_pos [OF this] True show ?thesis by simp
  qed
next
  case False
  with assms have x: "0 < x" and y: "0 < y" by simp_all
  let ?lx = "\<lfloor>log 2 x\<rfloor>" and ?ly = "\<lfloor>log 2 y\<rfloor>"
  from x assms(2) have "log 2 x \<le> log 2 y" by simp
  then have le: "?lx \<le> ?ly" by (rule floor_mono)
  show ?thesis
  proof (cases "?lx = ?ly")
    case True
    then have u: "ulp x = ulp y" using x y by (simp add: ulp_def)
    have "x / ulp y \<le> y / ulp y"
      by (rule divide_right_mono [OF assms(2)]) (simp add: less_imp_le)
    then have "round_half_even (x / ulp y) \<le> round_half_even (y / ulp y)"
      by (rule round_half_even_mono)
    then have "(of_int (round_half_even (x / ulp y)) :: real) * ulp y \<le>
        of_int (round_half_even (y / ulp y)) * ulp y"
      by (simp add: mult_right_mono)
    with x y u show ?thesis by (simp add: binary64_def)
  next
    case False
    with le have "?lx + 1 \<le> ?ly" by simp
    then have "(2::real) powr (of_int ?lx + 1) \<le> 2 powr of_int ?ly"
      by simp
    with binary64_range(2) [OF x] binary64_range(1) [OF y] show ?thesis by linarith
  qed
qed

lemma binary64_double: "binary64 (2 * x) = 2 * binary64 x"
proof (cases "x = 0")
  case True
  then show ?thesis by simp
next
  case False
  then have "log 2 \<bar>2 * x\<bar> = 1 + log 2 \<bar>x\<bar>" by (simp add: abs_mult log_mult)
  then have "\<lfloor>log 2 \<bar>2 * x\<bar>\<rfloor> = 1 + \<lfloor>log 2 \<bar>x\<bar>\<rfloor>" by simp
  then have "ulp (2 * x) = 2 * ulp x" by (simp add: ulp_def powr_add powr_diff)
  with False show ?thesis by (simp add: binary64_def)
qed

lemma binary64_exact:
  assumes "0 < m" "m < 2 ^ 53"
  shows "binary64 (of_int m * 2 powr of_int e) = of_int m * 2 powr of_int e"
proof -
  let ?x = "of_int m * 2 powr of_int e :: real"
  let ?lm = "\<lfloor>log 2 (of_int m)\<rfloor>"
  from assms(1) have mpos: "0 < (of_int m :: real)" by simp
  then have x: "0 < ?x" by simp
  have "log 2 ?x = log 2 (of_int m) + of_int e" using mpos by (simp add: log_mult)
  then have l: "\<lfloor>log 2 \<bar>?x\<bar>\<rfloor> = ?lm + e" using x by simp
  from assms(1) have "(1::real) \<le> of_int m" by simp
  then have "0 \<le> log 2 (of_int m)" by simp
  then have lm0: "0 \<le> ?lm" by simp
  from assms(2) have "(of_int m :: real) < 2 ^ 53" by (metis of_int_less_iff of_int_numeral of_int_power)
  then have "log 2 (of_int m) < 53" using mpos by (simp add: log_less_iff powr_realpow [symmetric])
  then have lm52: "?lm \<le> 52" by (simp add: floor_le_iff)
  define d where "d = nat (52 - ?lm)"
  from lm52 have d: "int d = 52 - ?lm" by (simp add: d_def)
  have u: "ulp ?x = 2 powr of_int e / 2 ^ d"
  proof -
    have "ulp ?x = 2 powr of_int (e - int d)" unfolding ulp_def l d by (simp add: algebra_simps)
    also have "\<dots> = 2 powr of_int e / 2 powr of_int (int d)" by (simp add: powr_diff)
    also have "2 powr of_int (int d) = (2::real) ^ d" by (simp add: powr_realpow)
    finally show ?thesis .
  qed
  have "?x / ulp ?x = of_int (m * 2 ^ d)" unfolding u by simp
  then have "round_half_even (?x / ulp ?x) = m * 2 ^ d" by (simp only: round_half_even_int)
  then have "binary64 ?x = of_int (m * 2 ^ d) * ulp ?x" using x by (simp add: binary64_def)
  also have "\<dots> = ?x" unfolding u by simp
  finally show ?thesis .
qed

lemma binary64_int: "0 < m \<Longrightarrow> m < 2 ^ 53 \<Longrightarrow> binary64 (of_int m) = of_int m"
  using binary64_exact [of m 0] by simp

lemma binary64_1 [simp]: "binary64 1 = 1"
  using binary64_int [of 1] by simp

lemma binary64_100 [simp]: "binary64 100 = 100"
  using binary64_int [of 100] by simp

section \<open>The number of matches\<close>

text \<open>The sum of the sizes of a list of blocks.\<close>

definition sum_sizes :: "(nat \<times> nat \<times> nat) list \<Rightarrow> nat" where
  "sum_sizes blocks = sum_list (map (\<lambda>(i, j, k). k) blocks)"

lemma sum_sizes_simps [simp]:
  "sum_sizes [] = 0" "sum_sizes ((i, j, k) # blocks) = k + sum_sizes blocks"
  "sum_sizes (xs @ ys) = sum_sizes xs + sum_sizes ys"
  by (simp_all add: sum_sizes_def)

lemma sum_sizes_insort: "sum_sizes (insort x xs) = sum_sizes [x] + sum_sizes xs"
  by (induction xs) (auto simp: sum_sizes_def)

lemma sum_sizes_sort: "sum_sizes (sort xs) = sum_sizes xs"
proof (induction xs)
  case Nil
  show ?case by simp
next
  case (Cons x xs)
  obtain i j k where "x = (i, j, k)" by (cases x)
  with Cons show ?case by (simp add: sum_sizes_insort)
qed

lemma sum_sizes_adjacent:
  "fold adjacent_step blocks ((i1, j1, k1), non_adjacent) = ((i, j, k), result) \<Longrightarrow>
   k + sum_sizes result = k1 + sum_sizes non_adjacent + sum_sizes blocks"
proof (induction blocks arbitrary: i1 j1 k1 non_adjacent)
  case Nil
  then show ?case by simp
next
  case (Cons blk blocks)
  obtain i2 j2 k2 where blk: "blk = (i2, j2, k2)" by (cases blk)
  show ?case
  proof (cases "i1 + k1 = i2 \<and> j1 + k1 = j2")
    case True
    then have "adjacent_step blk ((i1, j1, k1), non_adjacent) = ((i1, j1, k1 + k2), non_adjacent)"
      by (simp add: adjacent_step_def blk)
    with Cons.prems have "fold adjacent_step blocks ((i1, j1, k1 + k2), non_adjacent) = ((i, j, k), result)"
      by simp
    from Cons.IH [OF this] blk show ?thesis by simp
  next
    case False
    then have "adjacent_step blk ((i1, j1, k1), non_adjacent) =
        ((i2, j2, k2), if k1 \<noteq> 0 then non_adjacent @ [(i1, j1, k1)] else non_adjacent)"
      by (simp add: adjacent_step_def blk)
    with Cons.prems have "fold adjacent_step blocks
        ((i2, j2, k2), if k1 \<noteq> 0 then non_adjacent @ [(i1, j1, k1)] else non_adjacent) = ((i, j, k), result)"
      by simp
    from Cons.IH [OF this] blk show ?thesis by simp
  qed
qed

lemma matches_eq:
  "matches a b = sum_sizes (matching_loop a b [(0, length a, 0, length b)] [])"
proof -
  let ?blocks = "sort (matching_loop a b [(0, length a, 0, length b)] [])"
  obtain i j k result where f: "fold adjacent_step ?blocks ((0, 0, 0), []) = ((i, j, k), result)"
    by (metis prod.exhaust)
  from sum_sizes_adjacent [OF f] have "k + sum_sizes result = sum_sizes ?blocks" by simp
  moreover have "matches a b = sum_sizes ((if k \<noteq> 0 then result @ [(i, j, k)] else result) @ [(length a, length b, 0)])"
    by (simp add: matches_def get_matching_blocks_def f sum_sizes_def)
  ultimately show ?thesis by (simp add: sum_sizes_sort)
qed

lemma matching_loop_sum:
  "sum_sizes (matching_loop a b queue blocks) \<le>
     sum_sizes blocks + sum_list (map (\<lambda>(alo, ahi, blo, bhi). ahi - alo) queue) \<and>
   sum_sizes (matching_loop a b queue blocks) \<le>
     sum_sizes blocks + sum_list (map (\<lambda>(alo, ahi, blo, bhi). bhi - blo) queue)"
proof (induction a b queue blocks rule: matching_loop.induct)
  case (1 a b blocks)
  show ?case by (simp add: matching_loop.simps)
next
  case (2 a b alo ahi blo bhi queue blocks)
  obtain i j k where f: "find_longest_match a b alo ahi blo bhi = (i, j, k)" by (metis prod.exhaust)
  show ?case
  proof (cases "k = 0")
    case True
    from "2.IH"(2) [OF f [symmetric] refl] True f show ?thesis
      by (simp add: matching_loop.simps)
  next
    case False
    from find_longest_match_bounds [OF f] False
    have b: "alo \<le> i" "blo \<le> j" "i + k \<le> ahi" "j + k \<le> bhi" by simp_all
    let ?q = "(if i + k < ahi \<and> j + k < bhi then [(i + k, ahi, j + k, bhi)] else []) @
               (if alo < i \<and> blo < j then [(alo, i, blo, j)] else []) @ queue"
    define qa where "qa = sum_list (map (\<lambda>(alo, ahi, blo, bhi). ahi - alo) ?q)"
    define qb where "qb = sum_list (map (\<lambda>(alo, ahi, blo, bhi). bhi - blo) ?q)"
    define ra where "ra = sum_list (map (\<lambda>(alo, ahi, blo, bhi). ahi - alo) queue)"
    define rb where "rb = sum_list (map (\<lambda>(alo, ahi, blo, bhi). bhi - blo) queue)"
    define r where "r = sum_sizes (matching_loop a b ?q (blocks @ [(i, j, k)]))"
    note IH = "2.IH"(1) [OF f [symmetric] refl False, folded r_def qa_def qb_def]
    from IH have ih: "r \<le> sum_sizes blocks + k + qa" "r \<le> sum_sizes blocks + k + qb"
      by simp_all
    have e: "matching_loop a b ((alo, ahi, blo, bhi) # queue) blocks =
        matching_loop a b ?q (blocks @ [(i, j, k)])"
      using f False by (simp add: matching_loop.simps)
    have qa: "k + qa \<le> (ahi - alo) + ra"
      unfolding qa_def ra_def using b by auto
    have qb: "k + qb \<le> (bhi - blo) + rb"
      unfolding qb_def rb_def using b by auto
    have "sum_list (map (\<lambda>(alo, ahi, blo, bhi). ahi - alo) ((alo, ahi, blo, bhi) # queue)) = (ahi - alo) + ra"
      "sum_list (map (\<lambda>(alo, ahi, blo, bhi). bhi - blo) ((alo, ahi, blo, bhi) # queue)) = (bhi - blo) + rb"
      by (simp_all add: ra_def rb_def)
    moreover from ih qa qb have "r \<le> sum_sizes blocks + ((ahi - alo) + ra)"
      "r \<le> sum_sizes blocks + ((bhi - blo) + rb)" by linarith+
    ultimately show ?thesis unfolding e r_def [symmetric] by (simp only:)
  qed
qed

lemma matches_le: "matches a b \<le> length a" "matches a b \<le> length b"
  using matching_loop_sum [of a b "[(0, length a, 0, length b)]" "[]"]
  by (simp_all add: matches_eq)

section \<open>Range of the fallback comparator\<close>

lemma binary64_idem:
  assumes "0 \<le> x"
  shows "binary64 (binary64 x) = binary64 x"
proof (cases "x = 0")
  case True
  then show ?thesis by simp
next
  case False
  with assms have x: "0 < x" by simp
  let ?l = "\<lfloor>log 2 x\<rfloor>"
  let ?r = "round_half_even (x / ulp x)"
  have u: "ulp x = 2 powr of_int (?l - 52)" using x by (simp add: ulp_def)
  have b: "binary64 x = of_int ?r * 2 powr of_int (?l - 52)" using x by (simp add: binary64_def u)
  from scaled_bounds [OF x] have s: "(of_int (2 ^ 52) :: real) \<le> x / ulp x" "x / ulp x \<le> of_int (2 ^ 53)"
    by simp_all
  have "round_half_even (of_int (2 ^ 52)) \<le> ?r" using s(1) by (rule round_half_even_mono)
  moreover have "?r \<le> round_half_even (of_int (2 ^ 53))" using s(2) by (rule round_half_even_mono)
  ultimately have r: "2 ^ 52 \<le> ?r" "?r \<le> 2 ^ 53" by (simp_all only: round_half_even_int)
  show ?thesis
  proof (cases "?r = 2 ^ 53")
    case True
    have "binary64 x = of_int 1 * 2 powr of_int (?l + 1)"
      unfolding b True by (simp add: powr_diff powr_add)
    moreover have "binary64 (of_int 1 * 2 powr of_int (?l + 1)) = of_int 1 * 2 powr of_int (?l + 1)"
      by (rule binary64_exact) simp_all
    ultimately show ?thesis by simp
  next
    case False
    with r have "0 < ?r" "?r < 2 ^ 53" by simp_all
    then have "binary64 (of_int ?r * 2 powr of_int (?l - 52)) = of_int ?r * 2 powr of_int (?l - 52)"
      by (rule binary64_exact)
    then show ?thesis by (simp only: b)
  qed
qed

lemma binary64_nonneg: "0 \<le> x \<Longrightarrow> 0 \<le> binary64 x"
  using binary64_mono [of 0 x] by simp

lemma calculate_ratio_range:
  assumes "2 * m \<le> n"
  shows "0 \<le> calculate_ratio m n" "calculate_ratio m n \<le> 1"
proof -
  show "0 \<le> calculate_ratio m n"
    by (simp add: calculate_ratio_def binary64_nonneg)
  show "calculate_ratio m n \<le> 1"
  proof (cases "n = 0")
    case True
    then show ?thesis by (simp add: calculate_ratio_def)
  next
    case False
    then have npos: "0 < binary64 (of_nat n)" by (intro binary64_pos) simp
    have "2 * binary64 (of_nat m) = binary64 (2 * of_nat m)" by (simp add: binary64_double)
    also have "\<dots> \<le> binary64 (of_nat n)"
    proof (rule binary64_mono)
      show "(0::real) \<le> 2 * of_nat m" by simp
      from assms have "real (2 * m) \<le> real n" by (simp only: of_nat_le_iff)
      then show "2 * real m \<le> real n" by simp
    qed
    finally have "binary64 (2 * binary64 (of_nat m)) \<le> binary64 (binary64 (of_nat n))"
      by (intro binary64_mono) (simp_all add: binary64_nonneg)
    also have "\<dots> = binary64 (of_nat n)" by (rule binary64_idem) simp
    finally have "binary64 (2 * binary64 (of_nat m)) / binary64 (of_nat n) \<le> 1"
      using npos by simp
    moreover have "0 \<le> binary64 (2 * binary64 (of_nat m)) / binary64 (of_nat n)"
      using npos by (simp add: binary64_nonneg)
    ultimately have "binary64 (binary64 (2 * binary64 (of_nat m)) / binary64 (of_nat n)) \<le> binary64 1"
      by (intro binary64_mono)
    with False show ?thesis by (simp add: calculate_ratio_def)
  qed
qed

text \<open>
  Claim C9. The fallback comparator returns an integer from 0 to 100 for every pair of
  fingerprints. The functions above are total: the loops of \<open>SequenceMatcher\<close> end (the
  termination proofs), and they read \<open>a\<close> and \<open>b\<close> only at indices that the loop bounds
  keep inside the strings. The matching blocks lie in disjoint parts of both strings, so
  twice the number of matches is at most the sum of the lengths; rounding to binary64 is
  monotone and leaves 0, 1 and 100 as they are.
\<close>

theorem similar_fallback_range: "0 \<le> similar_fallback a b \<and> similar_fallback a b \<le> 100"
proof -
  from matches_le [of a b] have "2 * matches a b \<le> length a + length b" by simp
  from calculate_ratio_range [OF this] have r: "0 \<le> ratio a b" "ratio a b \<le> 1"
    by (simp_all add: ratio_def)
  then have p: "0 \<le> ratio a b * 100" "ratio a b * 100 \<le> 100" by simp_all
  from p(1) have "0 \<le> binary64 (ratio a b * 100)" by (rule binary64_nonneg)
  moreover from p have "binary64 (ratio a b * 100) \<le> binary64 100" by (rule binary64_mono)
  ultimately show ?thesis by (simp add: similar_fallback_def int_of_float_def floor_le_iff)
qed

section \<open>Comparing a fingerprint with itself, and the order of the arguments\<close>

text \<open>
  Two positions of \<open>a\<close> are linked when they hold the same element and that element is
  still indexed by \<open>b2j\<close> (it is not one of the popular elements of a long string).
  \<open>run_length a i j\<close> is the number of linked pairs on the diagonal that ends at
  \<open>(i, j)\<close>: the value that the rows of \<open>find_longest_match\<close> store in \<open>j2len\<close> when
  \<open>a\<close> is compared with itself. Both are used in the proofs only.
\<close>

definition linked :: "'a list \<Rightarrow> nat \<Rightarrow> nat \<Rightarrow> bool" where
  "linked a i j \<longleftrightarrow> a ! i = a ! j \<and> b2j a (a ! i) \<noteq> []"

fun run_length :: "'a list \<Rightarrow> nat \<Rightarrow> nat \<Rightarrow> nat" where
  "run_length a 0 j = (if linked a 0 j then 1 else 0)"
| "run_length a (Suc i) 0 = (if linked a (Suc i) 0 then 1 else 0)"
| "run_length a (Suc i) (Suc j) = (if linked a (Suc i) (Suc j) then run_length a i j + 1 else 0)"





lemma run_length_linked: "linked a i j \<Longrightarrow> 0 < run_length a i j"
  by (cases i; cases j) auto


























text \<open>
  The same holds between fingerprints that the script computes. Two texts that \<open>FUNC_RE\<close>
  matches, with \<open>tide\<close> and \<open>diet\<close> between the braces:
\<close>

definition example_tide :: pystr where
  "example_tide = example_decl @ lit ''tide}''"

definition example_diet :: pystr where
  "example_diet = example_decl @ lit ''diet}''"

lemma extract_example_tide:
  "extract_functions example_tide =
     Inr [([backslash, of_char CHR ''w''], example_decl_clean @ lit ''tide}'')]"
proof -
  have "extract_functions example_tide =
      Inr [(m_group1 example_match, example_decl_clean @ lit ''tide}'')]"
  proof (rule extract_single)
    show "finditer example_tide 0 = [example_match]" by code_simp
    show "function_body example_tide example_match = Inr example_tide" by code_simp
    show "re_sub WS_RE [space] example_tide = example_decl_clean @ lit ''tide}''"
      by code_simp
  qed (simp_all add: example_decl_clean_def lit_def isspace_def)
  then show ?thesis by (simp add: example_match_def)
qed

lemma extract_example_diet:
  "extract_functions example_diet =
     Inr [([backslash, of_char CHR ''w''], example_decl_clean @ lit ''diet}'')]"
proof -
  have "extract_functions example_diet =
      Inr [(m_group1 example_match, example_decl_clean @ lit ''diet}'')]"
  proof (rule extract_single)
    show "finditer example_diet 0 = [example_match]" by code_simp
    show "function_body example_diet example_match = Inr example_diet" by code_simp
    show "re_sub WS_RE [space] example_diet = example_decl_clean @ lit ''diet}''"
      by code_simp
  qed (simp_all add: example_decl_clean_def lit_def isspace_def)
  then show ?thesis by (simp add: example_match_def)
qed

text \<open>
  The ratios \<open>28 / 34\<close> and \<open>30 / 34\<close> are not binary fractions; their roundings are
  enclosed between binary fractions, which is enough to know the integer part of the
  score.
\<close>

lemma binary64_enclosed:
  assumes "0 < m" "m < 2 ^ 53" "0 < n" "n < 2 ^ 53"
    and "of_int m * 2 powr of_int e \<le> x" "x \<le> of_int n * 2 powr of_int f"
  shows "of_int m * 2 powr of_int e \<le> binary64 x \<and> binary64 x \<le> of_int n * 2 powr of_int f"
proof -
  let ?lo = "of_int m * 2 powr of_int e :: real"
  let ?hi = "of_int n * 2 powr of_int f :: real"
  from assms(1) have lo: "0 \<le> ?lo" by simp
  with assms(5) have x: "0 \<le> x" by simp
  have "binary64 ?lo \<le> binary64 x" using lo assms(5) by (rule binary64_mono)
  moreover have "binary64 x \<le> binary64 ?hi" using x assms(6) by (rule binary64_mono)
  moreover have "binary64 ?lo = ?lo" using assms(1,2) by (rule binary64_exact)
  moreover have "binary64 ?hi = ?hi" using assms(3,4) by (rule binary64_exact)
  ultimately show ?thesis by simp
qed

lemma calculate_ratio_14_34: "105 / 128 \<le> calculate_ratio 14 34 \<and> calculate_ratio 14 34 \<le> 106 / 128"
proof -
  have 14: "binary64 14 = 14" using binary64_int [of 14] by simp
  have 28: "binary64 28 = 28" using binary64_int [of 28] by simp
  have 34: "binary64 34 = 34" using binary64_int [of 34] by simp
  have c: "calculate_ratio 14 34 = binary64 (28 / 34)" by (simp add: calculate_ratio_def 14 28 34)
  from binary64_enclosed [of 105 106 "- 7" "28 / 34" "- 7"] show ?thesis
    unfolding c by (simp add: powr_minus)
qed

lemma calculate_ratio_15_34: "903 / 1024 \<le> calculate_ratio 15 34 \<and> calculate_ratio 15 34 \<le> 904 / 1024"
proof -
  have 15: "binary64 15 = 15" using binary64_int [of 15] by simp
  have 30: "binary64 30 = 30" using binary64_int [of 30] by simp
  have 34: "binary64 34 = 34" using binary64_int [of 34] by simp
  have c: "calculate_ratio 15 34 = binary64 (30 / 34)" by (simp add: calculate_ratio_def 15 30 34)
  from binary64_enclosed [of 903 904 "- 10" "30 / 34" "- 10"] show ?thesis
    unfolding c by (simp add: powr_minus)
qed

lemma similar_example_tide_diet:
  "similar_fallback (example_decl_clean @ lit ''tide}'') (example_decl_clean @ lit ''diet}'') = 82"
proof -
  let ?a = "example_decl_clean @ lit ''tide}''" and ?b = "example_decl_clean @ lit ''diet}''"
  have m: "matches ?a ?b = 14" by code_simp
  have l: "length ?a + length ?b = 34" by (simp add: example_decl_clean_def lit_def)
  define r where "r = calculate_ratio 14 34"
  from calculate_ratio_14_34 have r: "105 / 128 \<le> r" "r \<le> 106 / 128" by (simp_all add: r_def)
  from r have "of_int 2625 * 2 powr of_int (- 5) \<le> r * 100" "r * 100 \<le> of_int 1325 * 2 powr of_int (- 4)"
    by (simp_all add: powr_minus)
  from binary64_enclosed [OF _ _ _ _ this]
  have "2625 / 32 \<le> binary64 (r * 100)" "binary64 (r * 100) \<le> 1325 / 16" by (simp_all add: powr_minus)
  then have "\<lfloor>binary64 (r * 100)\<rfloor> = 82" "0 \<le> binary64 (r * 100)" by linarith+
  then show ?thesis
    unfolding similar_fallback_def ratio_def m l r_def [symmetric] by (simp add: int_of_float_def)
qed

lemma similar_example_diet_tide:
  "similar_fallback (example_decl_clean @ lit ''diet}'') (example_decl_clean @ lit ''tide}'') = 88"
proof -
  let ?a = "example_decl_clean @ lit ''diet}''" and ?b = "example_decl_clean @ lit ''tide}''"
  have m: "matches ?a ?b = 15" by code_simp
  have l: "length ?a + length ?b = 34" by (simp add: example_decl_clean_def lit_def)
  define r where "r = calculate_ratio 15 34"
  from calculate_ratio_15_34 have r: "903 / 1024 \<le> r" "r \<le> 904 / 1024" by (simp_all add: r_def)
  from r have "of_int 22575 * 2 powr of_int (- 8) \<le> r * 100" "r * 100 \<le> of_int 2825 * 2 powr of_int (- 5)"
    by (simp_all add: powr_minus)
  from binary64_enclosed [OF _ _ _ _ this]
  have "22575 / 256 \<le> binary64 (r * 100)" "binary64 (r * 100) \<le> 2825 / 32" by (simp_all add: powr_minus)
  then have "\<lfloor>binary64 (r * 100)\<rfloor> = 88" "0 \<le> binary64 (r * 100)" by linarith+
  then show ?thesis
    unfolding similar_fallback_def ratio_def m l r_def [symmetric] by (simp add: int_of_float_def)
qed

text \<open>
  The fingerprints of the two functions score 82 in one order and 88 in the other.
\<close>

lemma extracted_fingerprints_order:
  "extract_functions example_tide =
     Inr [([backslash, of_char CHR ''w''], example_decl_clean @ lit ''tide}'')] \<and>
   extract_functions example_diet =
     Inr [([backslash, of_char CHR ''w''], example_decl_clean @ lit ''diet}'')] \<and>
   similar_fallback (hash_fallback (example_decl_clean @ lit ''tide}''))
     (hash_fallback (example_decl_clean @ lit ''diet}'')) = 82 \<and>
   similar_fallback (hash_fallback (example_decl_clean @ lit ''diet}''))
     (hash_fallback (example_decl_clean @ lit ''tide}'')) = 88"
  by (simp add: extract_example_tide extract_example_diet hash_fallback_def
      similar_example_tide_diet similar_example_diet_tide)

end
